theory Spec2Isabelle
  imports Main "HOL-Library.AList" "HOL-Library.Word"
begin

section \<open>The store: JavaScript values, plain objects and arrays\<close>

text \<open>
  The traversal engine of \<^verbatim>\<open>mini-babel/src/traverse\<close> (the last of its scripts, the
  one with \<^verbatim>\<open>NodePath.replaceWith\<close> and \<^verbatim>\<open>NodePath.remove\<close>) mutates the syntax tree
  in place while it walks it, and what it does depends on which array object a loop holds and
  which object a field points to. The tree is therefore modelled as a store: a value is a
  primitive or a reference, plain objects and arrays live at addresses.

  A plain object is the list of its own properties in insertion order; reading an absent
  property gives \<open>Undefined\<close>. An array is the list of its elements (arrays are dense and
  carry no named properties in this model). The numbers of the model are the 32-bit signed
  integers, which is more than the literals of the trees walked here need.
\<close>

type_synonym addr = nat

datatype val = Undefined | Null | Num "32 word" | Str string | ObjRef addr | ArrRef addr

record store =
  objects :: "addr \<Rightarrow> (string \<times> val) list"
  arrays :: "addr \<Rightarrow> val list"

text \<open>\<^verbatim>\<open>o[k]\<close> and \<^verbatim>\<open>o[k] = v\<close> on the plain object at address \<open>a\<close>.\<close>

definition get_prop :: "'a store_scheme \<Rightarrow> addr \<Rightarrow> string \<Rightarrow> val" where
  "get_prop s a k = (case map_of (objects s a) k of None \<Rightarrow> Undefined | Some v \<Rightarrow> v)"

definition set_prop :: "addr \<Rightarrow> string \<Rightarrow> val \<Rightarrow> 'a store_scheme \<Rightarrow> 'a store_scheme" where
  "set_prop a k v s = s\<lparr>objects := (objects s)(a := AList.update k v (objects s a))\<rparr>"

text \<open>
  \<^verbatim>\<open>v[k]\<close> for any value that is not \<open>undefined\<close> or \<open>null\<close>: a primitive or an array
  has none of the properties the engine asks for (\<^verbatim>\<open>type\<close> and the schema's field names).
\<close>

definition member :: "'a store_scheme \<Rightarrow> val \<Rightarrow> string \<Rightarrow> val" where
  "member s v k = (case v of ObjRef a \<Rightarrow> get_prop s a k | _ \<Rightarrow> Undefined)"

text \<open>
  \<^verbatim>\<open>Array.prototype.splice(start, deleteCount, ...items)\<close> for a non-negative
  \<open>start\<close>: both numbers are clamped to the array, nothing is thrown.
\<close>

definition splice :: "nat \<Rightarrow> nat \<Rightarrow> val list \<Rightarrow> val list \<Rightarrow> val list" where
  "splice start deleteCount items xs =
     (let actualStart = min start (length xs);
          actualDeleteCount = min deleteCount (length xs - actualStart)
      in take actualStart xs @ items @ drop (actualStart + actualDeleteCount) xs)"

section \<open>Paths, hooks and the trace of a walk\<close>

text \<open>
  \<^verbatim>\<open>class NodePath { constructor(node, parent, parentPath, key, listKey) }\<close>.
  \<open>parent\<close> is \<open>None\<close> for \<open>undefined\<close> (the root call passes no parent) and an object
  address otherwise: \<open>traverse\<close> only ever passes a node whose schema entry it has found.
  \<open>key\<close> and \<open>listKey\<close> are \<open>None\<close> for \<open>undefined\<close>.
\<close>

datatype NodePath =
  NodePath (node: val) (parent: "addr option") (parentPath: "NodePath option")
           (key: "string option") (listKey: "nat option")

text \<open>
  A hook is a caller-supplied function of the path; it may read the store. Its body is a
  sequence of statements: calls of the methods of the path it was given, and assignments
  that change objects and arrays directly, as \<^verbatim>\<open>path.node.name = 'b'\<close> in the script
  before this one (\<open>Mutate\<close>, any change of the store). \<open>Stop\<close> is the call
  \<^verbatim>\<open>path.stop()\<close>, as the plugins of this repository write it for the real Babel, and
  \<open>Throw\<close> a statement that throws. An object literal passed to \<^verbatim>\<open>replaceWith\<close> is
  an object of the store. The errors that occur are all of the class \<^verbatim>\<open>TypeError\<close>.
\<close>

datatype error = TypeError string

datatype action = ReplaceWith val | Remove | Stop | Mutate "store \<Rightarrow> store" | Throw error

type_synonym hook = "NodePath \<Rightarrow> store \<Rightarrow> action list"

text \<open>
  An entry of the visitor map: a single callback, or an object with optional
  \<^verbatim>\<open>enter\<close> and \<^verbatim>\<open>exit\<close> members. The visitor map is what \<^verbatim>\<open>visitors[name]\<close>
  gives for each property name, \<open>None\<close> for \<open>undefined\<close>; the properties an object
  inherits count as well as its own.
\<close>

datatype visitor = Func hook | Hooks (enter: "hook option") (exit: "hook option")

type_synonym visitors = "string \<Rightarrow> visitor option"

text \<open>
  The trace is ghost state: one event each time an activation of \<open>traverse\<close> passes its
  enter point (line 41) and its exit point (line 55), with the type tag read at line 30 and
  the path built at line 39. The hook registered for that tag and phase, if any, is called
  at exactly these points.
\<close>

datatype phase = Enter | Exit

datatype event = Event (phase_of: phase) (tag_of: val) (path_of: NodePath)

record state = store +
  trace :: "event list"

text \<open>
  The result of a computation: \<open>None\<close> when the fuel ran out (the recursion did not return
  within the given depth), otherwise a thrown error or a normal return, with the state
  reached.
\<close>

type_synonym result = "((error + unit) \<times> state) option"

definition return :: "state \<Rightarrow> result" where
  "return s = Some (Inr (), s)"

definition throw :: "error \<Rightarrow> state \<Rightarrow> result" where
  "throw e s = Some (Inl e, s)"

text \<open>Sequencing of statements: a throw or a missing result skips what follows.\<close>

fun andThen :: "result \<Rightarrow> (state \<Rightarrow> result) \<Rightarrow> result" where
  "andThen None f = None"
| "andThen (Some (Inl e, s)) f = Some (Inl e, s)"
| "andThen (Some (Inr u, s)) f = f s"

section \<open>The methods of NodePath\<close>

text \<open>\<^verbatim>\<open>if (this.listKey)\<close>: \<open>undefined\<close> and \<open>0\<close> are falsy.\<close>

definition truthy :: "nat option \<Rightarrow> bool" where
  "truthy lk = (case lk of None \<Rightarrow> False | Some i \<Rightarrow> 0 < i)"

text \<open>A \<^verbatim>\<open>start\<close> argument that is \<open>undefined\<close> counts as \<open>0\<close>.\<close>

definition to_index :: "nat option \<Rightarrow> nat" where
  "to_index lk = (case lk of None \<Rightarrow> 0 | Some i \<Rightarrow> i)"

text \<open>A property name that is \<open>undefined\<close> becomes the string \<^verbatim>\<open>"undefined"\<close>.\<close>

definition key_name :: "string option \<Rightarrow> string" where
  "key_name k = (case k of None \<Rightarrow> ''undefined'' | Some x \<Rightarrow> x)"

text \<open>
  \<^verbatim>\<open>target.splice(start, deleteCount, ...items)\<close> where \<open>target\<close> is what
  \<^verbatim>\<open>this.parent[this.key]\<close> holds: only an array has the method.
\<close>

definition call_splice :: "val \<Rightarrow> nat \<Rightarrow> nat \<Rightarrow> val list \<Rightarrow> state \<Rightarrow> result" where
  "call_splice target start deleteCount items s =
     (case target of
        ArrRef r \<Rightarrow> return (s\<lparr>arrays := (arrays s)(r := splice start deleteCount items (arrays s r))\<rparr>)
      | Undefined \<Rightarrow> throw (TypeError ''Cannot read properties of undefined (reading splice)'') s
      | Null \<Rightarrow> throw (TypeError ''Cannot read properties of null (reading splice)'') s
      | _ \<Rightarrow> throw (TypeError ''splice is not a function'') s)"

text \<open>
  \<^verbatim>\<open>this.parent[this.key]\<close>, read and assigned: a \<^verbatim>\<open>TypeError\<close> when the path has
  no parent, \<open>undefined\<close> having no properties.
\<close>

definition read_slot :: "NodePath \<Rightarrow> state \<Rightarrow> error + val" where
  "read_slot this s =
     (case parent this of
        None \<Rightarrow> Inl (TypeError ''Cannot read properties of undefined'')
      | Some p \<Rightarrow> Inr (get_prop s p (key_name (key this))))"

definition write_slot :: "NodePath \<Rightarrow> val \<Rightarrow> state \<Rightarrow> result" where
  "write_slot this v s =
     (case parent this of
        None \<Rightarrow> throw (TypeError ''Cannot set properties of undefined'') s
      | Some p \<Rightarrow> return (set_prop p (key_name (key this)) v s))"

text \<open>
  \<^verbatim>\<open>
  replaceWith(node) {
      if (this.listKey) {
          this.parent[this.key].splice(this.listKey, 1, node);
      }
      this.parent[this.key] = node
  }
  \<close>
\<close>

definition replaceWith :: "NodePath \<Rightarrow> val \<Rightarrow> state \<Rightarrow> result" where
  "replaceWith this v s =
     andThen
       (if truthy (listKey this)
        then (case read_slot this s of
                Inl e \<Rightarrow> throw e s
              | Inr target \<Rightarrow> call_splice target (to_index (listKey this)) 1 [v] s)
        else return s)
       (write_slot this v)"

text \<open>
  \<^verbatim>\<open>
  remove () {
      if (this.listKey) {
          this.parent[this.key].splice(this.listKey, 1);
      }
      this.parent[this.key] = null;
  }
  \<close>
\<close>

definition remove :: "NodePath \<Rightarrow> state \<Rightarrow> result" where
  "remove this s =
     andThen
       (if truthy (listKey this)
        then (case read_slot this s of
                Inl e \<Rightarrow> throw e s
              | Inr target \<Rightarrow> call_splice target (to_index (listKey this)) 1 [] s)
        else return s)
       (write_slot this Null)"

text \<open>One statement of a hook body, and the body as a whole.\<close>

fun act :: "NodePath \<Rightarrow> action \<Rightarrow> state \<Rightarrow> result" where
  "act p (ReplaceWith v) s = replaceWith p v s"
| "act p Remove s = remove p s"
| "act p Stop s = throw (TypeError ''path.stop is not a function'') s"
| "act p (Throw e) s = throw e s"
| "act p (Mutate f) s =
     return (s\<lparr>objects := objects (f (store.truncate s)), arrays := arrays (f (store.truncate s))\<rparr>)"

fun perform :: "NodePath \<Rightarrow> action list \<Rightarrow> state \<Rightarrow> result" where
  "perform p [] s = return s"
| "perform p (a # as) s = andThen (act p a s) (perform p as)"

section \<open>The schema registry\<close>

text \<open>
  An entry of \<^verbatim>\<open>astDefinitionsMap\<close>: the optional \<^verbatim>\<open>visitor\<close> array of
  child-bearing field names. The map of \<^verbatim>\<open>mini-babel/src/utils.js\<close>:
\<close>

record astDefinition =
  visitor :: "string list option"

type_synonym schema = "string \<Rightarrow> astDefinition option"

definition astDefinitionsMap :: schema where
  "astDefinitionsMap =
     [''Program'' \<mapsto> \<lparr>visitor = Some [''body'']\<rparr>,
      ''VariableDeclaration'' \<mapsto> \<lparr>visitor = Some [''declarations'']\<rparr>,
      ''VariableDeclarator'' \<mapsto> \<lparr>visitor = Some [''id'', ''init'']\<rparr>,
      ''Identifier'' \<mapsto> \<lparr>visitor = None\<rparr>,
      ''NumericLiteral'' \<mapsto> \<lparr>visitor = None\<rparr>]"

text \<open>\<^verbatim>\<open>astDefinitionsMap.get(node.type)\<close>: the keys of the map are strings.\<close>

definition lookup_definition :: "schema \<Rightarrow> val \<Rightarrow> astDefinition option" where
  "lookup_definition defs ty = (case ty of Str t \<Rightarrow> defs t | _ \<Rightarrow> None)"

text \<open>
  \<^verbatim>\<open>visitors[node.type]\<close> converts the tag to a property name: a string is its own
  name, a number is written in decimal digits, and a tag that is itself an object is keyed
  as \<^verbatim>\<open>[object Object]\<close>. A tag that is an array is given that same name here
  (JavaScript joins the elements of the array instead); the tags of a schema are strings.
\<close>

fun digits :: "nat \<Rightarrow> string" where
  "digits n = (if n < 10 then [char_of (48 + n)] else digits (n div 10) @ [char_of (48 + n mod 10)])"

definition property_name :: "val \<Rightarrow> string" where
  "property_name v =
     (case v of
        Undefined \<Rightarrow> ''undefined''
      | Null \<Rightarrow> ''null''
      | Str t \<Rightarrow> t
      | Num i \<Rightarrow> (if sint i < 0 then ''-'' @ digits (nat (- sint i)) else digits (nat (sint i)))
      | _ \<Rightarrow> ''[object Object]'')"

text \<open>
  \<^verbatim>\<open>
  let visitorFuncs = visitors[node.type] || {};
  if (typeof visitorFuncs === 'function') { visitorFuncs = { enter: visitorFuncs } }
  \<close>
\<close>

definition visitorFuncs :: "visitors \<Rightarrow> val \<Rightarrow> visitor" where
  "visitorFuncs vis ty =
     (case vis (property_name ty) of
        None \<Rightarrow> Hooks None None
      | Some (Func f) \<Rightarrow> Hooks (Some f) None
      | Some (Hooks en ex) \<Rightarrow> Hooks en ex)"

text \<open>
  The visitor maps of the scripts are object literals, and an object literal inherits the
  properties of \<^verbatim>\<open>Object.prototype\<close>: under one of these names
  \<^verbatim>\<open>visitors[node.type]\<close> finds the inherited value where the literal has no property
  of its own. Eleven of them are functions, which \<open>traverse\<close> then calls as an enter
  hook, with the path as the only argument: \<^verbatim>\<open>__defineGetter__\<close> and
  \<^verbatim>\<open>__defineSetter__\<close> throw a \<^verbatim>\<open>TypeError\<close> (their second argument is no function),
  the others return without any effect on the tree. \<^verbatim>\<open>__proto__\<close> is the prototype
  itself, an object with no \<^verbatim>\<open>enter\<close> and no \<^verbatim>\<open>exit\<close>.
\<close>

datatype inherited = Returns | Throws string | Holds

definition Object_prototype :: "string \<Rightarrow> inherited option" where
  "Object_prototype name =
     (if name \<in> set [''constructor'', ''hasOwnProperty'', ''isPrototypeOf'',
                     ''propertyIsEnumerable'', ''toLocaleString'', ''toString'', ''valueOf'',
                     ''__lookupGetter__'', ''__lookupSetter__'']
      then Some Returns
      else if name = ''__defineGetter__''
      then Some (Throws ''Object.prototype.__defineGetter__: Expecting function'')
      else if name = ''__defineSetter__''
      then Some (Throws ''Object.prototype.__defineSetter__: Expecting function'')
      else if name = ''__proto__'' then Some Holds
      else None)"

definition inherited_visitor :: "inherited \<Rightarrow> visitor" where
  "inherited_visitor i =
     (case i of
        Returns \<Rightarrow> Func (\<lambda>path st. [])
      | Throws msg \<Rightarrow> Func (\<lambda>path st. [Throw (TypeError msg)])
      | Holds \<Rightarrow> Hooks None None)"

text \<open>The object literal with the given properties of its own, as a visitor map.\<close>

definition object_literal :: "(string \<times> visitor) list \<Rightarrow> visitors" where
  "object_literal props name =
     (case map_of props name of
        Some v \<Rightarrow> Some v
      | None \<Rightarrow> map_option inherited_visitor (Object_prototype name))"

section \<open>The traversal\<close>

text \<open>
  \<^verbatim>\<open>visitorFuncs.enter && visitorFuncs.enter(path)\<close> and the same for
  \<^verbatim>\<open>exit\<close>: the event is recorded, then the hook, if there is one, runs.
\<close>

definition fire :: "phase \<Rightarrow> hook option \<Rightarrow> val \<Rightarrow> NodePath \<Rightarrow> state \<Rightarrow> result" where
  "fire ph h ty p s =
     (let s1 = s\<lparr>trace := trace s @ [Event ph ty p]\<rparr>
      in case h of None \<Rightarrow> return s1 | Some f \<Rightarrow> perform p (f p (store.truncate s1)) s1)"

text \<open>
  \<^verbatim>\<open>forEach\<close> on the schema's array of field names, which nothing mutates.
\<close>

fun forEach_list :: "('a \<Rightarrow> state \<Rightarrow> result) \<Rightarrow> 'a list \<Rightarrow> state \<Rightarrow> result" where
  "forEach_list f [] s = return s"
| "forEach_list f (x # xs) s = andThen (f x s) (forEach_list f xs)"

text \<open>
  \<^verbatim>\<open>prop.forEach((childNode, index) => ...)\<close> on an array of the store, which the
  callback may splice: \<^verbatim>\<open>Array.prototype.forEach\<close> reads the length once, before the
  first call, then for each index below it, in ascending order, calls the callback if the
  array still has that index, with the element it holds now. \<open>forEach_from f r k m\<close> is
  the loop at index \<open>k\<close> with \<open>m\<close> indices to go.
\<close>

fun forEach_from :: "(val \<Rightarrow> nat \<Rightarrow> state \<Rightarrow> result) \<Rightarrow> addr \<Rightarrow> nat \<Rightarrow> nat \<Rightarrow> state \<Rightarrow> result" where
  "forEach_from f r k 0 s = return s"
| "forEach_from f r k (Suc m) s =
     (if k < length (arrays s r)
      then andThen (f (arrays s r ! k) k s) (forEach_from f r (Suc k) m)
      else forEach_from f r (Suc k) m s)"

definition forEach_array :: "(val \<Rightarrow> nat \<Rightarrow> state \<Rightarrow> result) \<Rightarrow> addr \<Rightarrow> state \<Rightarrow> result" where
  "forEach_array f r s = forEach_from f r 0 (length (arrays s r)) s"

text \<open>
  The body of the callback of line 44, for one field name, given the function to call on a
  child (the recursive call of \<open>traverse\<close>):
  \<^verbatim>\<open>
  const prop = node[key];
  if (Array.isArray(prop)) {
      prop.forEach((childNode, index) => { traverse(childNode, visitors, node, path, key, index); })
  } else {
      traverse(prop, visitors, node, path, key);
  }
  \<close>
  The node passed on as the children's parent is an object whenever the loop runs at all
  (its \<^verbatim>\<open>type\<close> has a schema entry); \<open>as_parent\<close> gives its address.
\<close>

definition as_parent :: "val \<Rightarrow> addr option" where
  "as_parent nd = (case nd of ObjRef a \<Rightarrow> Some a | _ \<Rightarrow> None)"

definition visit_field ::
  "(val \<Rightarrow> addr option \<Rightarrow> NodePath option \<Rightarrow> string option \<Rightarrow> nat option \<Rightarrow> state \<Rightarrow> result)
   \<Rightarrow> val \<Rightarrow> NodePath \<Rightarrow> string \<Rightarrow> state \<Rightarrow> result" where
  "visit_field rec nd path k s =
     (let prop = member s nd k
      in case prop of
           ArrRef r \<Rightarrow>
             forEach_array
               (\<lambda>childNode index. rec childNode (as_parent nd) (Some path) (Some k) (Some index)) r s
         | _ \<Rightarrow> rec prop (as_parent nd) (Some path) (Some k) None s)"

text \<open>
  \<^verbatim>\<open>
  function traverse(node, visitors, parent, parentPath, key, listKey) {
      const definition = astDefinitionsMap.get(node.type);
      let visitorFuncs = visitors[node.type] || {};
      if(typeof visitorFuncs === 'function') { visitorFuncs = { enter: visitorFuncs } }
      const path = new NodePath(node, parent, parentPath, key, listKey);
      visitorFuncs.enter && visitorFuncs.enter(path);
      if (definition.visitor) {
          definition.visitor.forEach(key => { ... })
      }
      visitorFuncs.exit && visitorFuncs.exit(path);
  }
  \<close>
  The recursion is on the depth of the call stack, bounded by the fuel: the store may hold a
  cyclic structure, on which the JavaScript recursion does not come to an end either.
\<close>

fun traverse ::
  "nat \<Rightarrow> schema \<Rightarrow> visitors \<Rightarrow> val \<Rightarrow> addr option \<Rightarrow> NodePath option \<Rightarrow> string option
   \<Rightarrow> nat option \<Rightarrow> state \<Rightarrow> result" where
  "traverse 0 defs vis nd par pp k lk s = None"
| "traverse (Suc n) defs vis nd par pp k lk s =
     (if nd = Undefined
      then throw (TypeError ''Cannot read properties of undefined (reading type)'') s
      else if nd = Null
      then throw (TypeError ''Cannot read properties of null (reading type)'') s
      else
        let ty = member s nd ''type'';
            definition = lookup_definition defs ty;
            vf = visitorFuncs vis ty;
            path = NodePath nd par pp k lk
        in andThen (fire Enter (enter vf) ty path s)
             (\<lambda>s1. case definition of
                None \<Rightarrow> throw (TypeError ''Cannot read properties of undefined (reading visitor)'') s1
              | Some d \<Rightarrow>
                  andThen
                    (case visitor d of
                       None \<Rightarrow> return s1
                     | Some ks \<Rightarrow> forEach_list (visit_field (traverse n defs vis) nd path) ks s1)
                    (fire Exit (exit vf) ty path)))"

text \<open>The call that starts a walk: \<^verbatim>\<open>traverse(ast, visitors)\<close>.\<close>

definition walk :: "nat \<Rightarrow> schema \<Rightarrow> visitors \<Rightarrow> val \<Rightarrow> state \<Rightarrow> result" where
  "walk n defs vis root s = traverse n defs vis root None None None None s"

section \<open>The earlier traversal, without paths\<close>

text \<open>
  The script before \<^verbatim>\<open>NodePath\<close> was introduced has the same loop and hands the node
  itself to the hooks:
  \<^verbatim>\<open>
  function traverse(node, visitors) {
      const definition = astDefinitionsMap.get(node.type);
      let visitorFuncs = visitors[node.type] || {};
      if(typeof visitorFuncs === 'function') { visitorFuncs = { enter: visitorFuncs } }
      visitorFuncs.enter && visitorFuncs.enter(node);
      if (definition.visitor) {
          definition.visitor.forEach(key => {
              const prop = node[key];
              if (Array.isArray(prop)) {
                  prop.forEach(childNode => { traverse(childNode, visitors); })
              } else {
                  traverse(prop, visitors);
              }
          })
      }
      visitorFuncs.exit && visitorFuncs.exit(node);
  }
  \<close>
  Its hooks assign to the tree (\<^verbatim>\<open>node.name = 'b'\<close>): a hook is a function of the node
  and the store that throws or returns with the store changed. The events of this traversal
  carry a path that holds the node alone.
\<close>

type_synonym node_hook = "val \<Rightarrow> store \<Rightarrow> error + store"

datatype node_visitor =
  NodeFunc node_hook | NodeHooks (node_enter: "node_hook option") (node_exit: "node_hook option")

type_synonym node_visitors = "string \<Rightarrow> node_visitor option"

definition node_visitorFuncs :: "node_visitors \<Rightarrow> val \<Rightarrow> node_visitor" where
  "node_visitorFuncs vis ty =
     (case vis (property_name ty) of
        None \<Rightarrow> NodeHooks None None
      | Some (NodeFunc f) \<Rightarrow> NodeHooks (Some f) None
      | Some (NodeHooks en ex) \<Rightarrow> NodeHooks en ex)"

definition inherited_node_visitor :: "inherited \<Rightarrow> node_visitor" where
  "inherited_node_visitor i =
     (case i of
        Returns \<Rightarrow> NodeFunc (\<lambda>nd st. Inr st)
      | Throws msg \<Rightarrow> NodeFunc (\<lambda>nd st. Inl (TypeError msg))
      | Holds \<Rightarrow> NodeHooks None None)"

definition node_object_literal :: "(string \<times> node_visitor) list \<Rightarrow> node_visitors" where
  "node_object_literal props name =
     (case map_of props name of
        Some v \<Rightarrow> Some v
      | None \<Rightarrow> map_option inherited_node_visitor (Object_prototype name))"

definition fire_node :: "phase \<Rightarrow> node_hook option \<Rightarrow> val \<Rightarrow> val \<Rightarrow> state \<Rightarrow> result" where
  "fire_node ph h ty nd s =
     (let s1 = s\<lparr>trace := trace s @ [Event ph ty (NodePath nd None None None None)]\<rparr>
      in case h of
           None \<Rightarrow> return s1
         | Some f \<Rightarrow>
             (case f nd (store.truncate s1) of
                Inl e \<Rightarrow> throw e s1
              | Inr st \<Rightarrow> return (s1\<lparr>objects := objects st, arrays := arrays st\<rparr>)))"

definition visit_node_field ::
  "(val \<Rightarrow> state \<Rightarrow> result) \<Rightarrow> val \<Rightarrow> string \<Rightarrow> state \<Rightarrow> result" where
  "visit_node_field rec nd k s =
     (let prop = member s nd k
      in case prop of
           ArrRef r \<Rightarrow> forEach_array (\<lambda>childNode index. rec childNode) r s
         | _ \<Rightarrow> rec prop s)"

fun traverse_nodes :: "nat \<Rightarrow> schema \<Rightarrow> node_visitors \<Rightarrow> val \<Rightarrow> state \<Rightarrow> result" where
  "traverse_nodes 0 defs vis nd s = None"
| "traverse_nodes (Suc n) defs vis nd s =
     (if nd = Undefined
      then throw (TypeError ''Cannot read properties of undefined (reading type)'') s
      else if nd = Null
      then throw (TypeError ''Cannot read properties of null (reading type)'') s
      else
        let ty = member s nd ''type'';
            definition = lookup_definition defs ty;
            vf = node_visitorFuncs vis ty
        in andThen (fire_node Enter (node_enter vf) ty nd s)
             (\<lambda>s1. case definition of
                None \<Rightarrow> throw (TypeError ''Cannot read properties of undefined (reading visitor)'') s1
              | Some d \<Rightarrow>
                  andThen
                    (case visitor d of
                       None \<Rightarrow> return s1
                     | Some ks \<Rightarrow> forEach_list (visit_node_field (traverse_nodes n defs vis) nd) ks s1)
                    (fire_node Exit (node_exit vf) ty nd)))"

section \<open>Observing the result of a walk\<close>

definition outcome :: "result \<Rightarrow> (error + unit) option" where
  "outcome r = map_option fst r"

definition final_object :: "result \<Rightarrow> addr \<Rightarrow> (string \<times> val) list option" where
  "final_object r a = map_option (\<lambda>x. objects (snd x) a) r"

definition final_array :: "result \<Rightarrow> addr \<Rightarrow> val list option" where
  "final_array r a = map_option (\<lambda>x. arrays (snd x) a) r"

text \<open>The phase and the node of each event, in order.\<close>

definition visited :: "event list \<Rightarrow> (phase \<times> val) list" where
  "visited evs = map (\<lambda>e. (phase_of e, node (path_of e))) evs"

definition final_visits :: "result \<Rightarrow> (phase \<times> val) list option" where
  "final_visits r = map_option (\<lambda>x. visited (trace (snd x))) r"

text \<open>The nodes whose enter point, respectively exit point, was passed, in order.\<close>

definition entered :: "event list \<Rightarrow> val list" where
  "entered evs = map (\<lambda>e. node (path_of e)) (filter (\<lambda>e. phase_of e = Enter) evs)"

definition exited :: "event list \<Rightarrow> val list" where
  "exited evs = map (\<lambda>e. node (path_of e)) (filter (\<lambda>e. phase_of e = Exit) evs)"

section \<open>The vocabulary of the properties\<close>

text \<open>The fields the loop of line 44 goes through: none when the entry has no \<^verbatim>\<open>visitor\<close>.\<close>

definition child_fields :: "astDefinition \<Rightarrow> string list" where
  "child_fields d = (case visitor d of None \<Rightarrow> [] | Some ks \<Rightarrow> ks)"

text \<open>The chain of \<^verbatim>\<open>parentPath\<close> links above a path, nearest first.\<close>

fun ancestors :: "NodePath \<Rightarrow> NodePath list" where
  "ancestors (NodePath n p pp k lk) = (case pp of None \<Rightarrow> [] | Some q \<Rightarrow> q # ancestors q)"

text \<open>An event of an activation somewhere below the activation of path \<open>P\<close>.\<close>

definition within :: "NodePath \<Rightarrow> event \<Rightarrow> bool" where
  "within P e \<longleftrightarrow> P \<in> set (ancestors (path_of e))"

text \<open>
  The order of a walk as the specification lays it down, for one activation at path \<open>P\<close>
  started in state \<open>s\<close>: the enter hook registered for the type of the node is called
  first, with \<open>P\<close>; then the child fields named by the schema entry are gone through in
  the order of the entry; then the exit hook registered for the type is called, with
  \<open>P\<close>. A field that holds an array has its elements visited by ascending index, from
  index 0 up to the length the array has when the field is reached, each index with the
  element the array holds there when its turn comes (an index the array has lost by then is
  passed over); any other field has the value it holds visited once, with no index. Each
  child is visited as an activation of its own, with \<open>P\<close> as its parent path, the node
  of \<open>P\<close> as its parent and the name of the field as its key. The first error ends
  everything: an activation on \<open>undefined\<close> or \<open>null\<close>, a hook that throws, a type
  without schema entry (found out after the enter hook). \<open>spec_visit\<close> relates the path
  and the state before to the outcome and the state after.
\<close>

inductive spec_visit :: "schema \<Rightarrow> visitors \<Rightarrow> NodePath \<Rightarrow> state \<Rightarrow> error + unit \<Rightarrow> state \<Rightarrow> bool"
  and spec_field :: "schema \<Rightarrow> visitors \<Rightarrow> NodePath \<Rightarrow> string \<Rightarrow> state \<Rightarrow> error + unit \<Rightarrow> state \<Rightarrow> bool"
  and spec_fields ::
    "schema \<Rightarrow> visitors \<Rightarrow> NodePath \<Rightarrow> string list \<Rightarrow> state \<Rightarrow> error + unit \<Rightarrow> state \<Rightarrow> bool"
  and spec_elements ::
    "schema \<Rightarrow> visitors \<Rightarrow> NodePath \<Rightarrow> string \<Rightarrow> addr \<Rightarrow> nat \<Rightarrow> nat \<Rightarrow> state \<Rightarrow> error + unit \<Rightarrow> state
     \<Rightarrow> bool"
  for defs :: schema and vis :: visitors
where
  visit_undefined:
    "node P = Undefined \<Longrightarrow>
     spec_visit defs vis P s (Inl (TypeError ''Cannot read properties of undefined (reading type)'')) s"
| visit_null:
    "node P = Null \<Longrightarrow>
     spec_visit defs vis P s (Inl (TypeError ''Cannot read properties of null (reading type)'')) s"
| visit_enter_throws:
    "\<lbrakk>node P \<noteq> Undefined; node P \<noteq> Null; ty = member s (node P) ''type'';
      fire Enter (enter (visitorFuncs vis ty)) ty P s = Some (Inl e, s1)\<rbrakk>
     \<Longrightarrow> spec_visit defs vis P s (Inl e) s1"
| visit_unknown:
    "\<lbrakk>node P \<noteq> Undefined; node P \<noteq> Null; ty = member s (node P) ''type'';
      fire Enter (enter (visitorFuncs vis ty)) ty P s = Some (Inr (), s1);
      lookup_definition defs ty = None\<rbrakk>
     \<Longrightarrow> spec_visit defs vis P s
           (Inl (TypeError ''Cannot read properties of undefined (reading visitor)'')) s1"
| visit_child_throws:
    "\<lbrakk>node P \<noteq> Undefined; node P \<noteq> Null; ty = member s (node P) ''type'';
      fire Enter (enter (visitorFuncs vis ty)) ty P s = Some (Inr (), s1);
      lookup_definition defs ty = Some d;
      spec_fields defs vis P (child_fields d) s1 (Inl e) s2\<rbrakk>
     \<Longrightarrow> spec_visit defs vis P s (Inl e) s2"
| visit_exit:
    "\<lbrakk>node P \<noteq> Undefined; node P \<noteq> Null; ty = member s (node P) ''type'';
      fire Enter (enter (visitorFuncs vis ty)) ty P s = Some (Inr (), s1);
      lookup_definition defs ty = Some d;
      spec_fields defs vis P (child_fields d) s1 (Inr ()) s2;
      fire Exit (exit (visitorFuncs vis ty)) ty P s2 = Some (r, s3)\<rbrakk>
     \<Longrightarrow> spec_visit defs vis P s r s3"
| field_array:
    "\<lbrakk>member s (node P) k = ArrRef a;
      spec_elements defs vis P k a 0 (length (arrays s a)) s r s1\<rbrakk>
     \<Longrightarrow> spec_field defs vis P k s r s1"
| field_single:
    "\<lbrakk>\<forall>a. member s (node P) k \<noteq> ArrRef a;
      spec_visit defs vis (NodePath (member s (node P) k) (as_parent (node P)) (Some P) (Some k) None)
        s r s1\<rbrakk>
     \<Longrightarrow> spec_field defs vis P k s r s1"
| fields_none: "spec_fields defs vis P [] s (Inr ()) s"
| fields_throw:
    "spec_field defs vis P k s (Inl e) s1 \<Longrightarrow> spec_fields defs vis P (k # ks) s (Inl e) s1"
| fields_next:
    "\<lbrakk>spec_field defs vis P k s (Inr ()) s1; spec_fields defs vis P ks s1 r s2\<rbrakk>
     \<Longrightarrow> spec_fields defs vis P (k # ks) s r s2"
| elements_none: "spec_elements defs vis P k a i 0 s (Inr ()) s"
| element_throws:
    "\<lbrakk>i < length (arrays s a);
      spec_visit defs vis (NodePath (arrays s a ! i) (as_parent (node P)) (Some P) (Some k) (Some i))
        s (Inl e) s1\<rbrakk>
     \<Longrightarrow> spec_elements defs vis P k a i (Suc m) s (Inl e) s1"
| element_next:
    "\<lbrakk>i < length (arrays s a);
      spec_visit defs vis (NodePath (arrays s a ! i) (as_parent (node P)) (Some P) (Some k) (Some i))
        s (Inr ()) s1;
      spec_elements defs vis P k a (Suc i) m s1 r s2\<rbrakk>
     \<Longrightarrow> spec_elements defs vis P k a i (Suc m) s r s2"
| element_absent:
    "\<lbrakk>\<not> i < length (arrays s a); spec_elements defs vis P k a (Suc i) m s r s2\<rbrakk>
     \<Longrightarrow> spec_elements defs vis P k a i (Suc m) s r s2"

text \<open>
  A tree that keeps the schema contract, to depth \<open>n\<close>: the node is an object whose
  \<^verbatim>\<open>type\<close> has a schema entry, and each field the entry names holds such a node, or an
  array of such nodes.
\<close>

fun conforms :: "nat \<Rightarrow> schema \<Rightarrow> 'a store_scheme \<Rightarrow> val \<Rightarrow> bool" where
  "conforms 0 defs s v = False"
| "conforms (Suc n) defs s v =
     (case v of
        ObjRef a \<Rightarrow>
          (case lookup_definition defs (get_prop s a ''type'') of
             None \<Rightarrow> False
           | Some d \<Rightarrow>
               (\<forall>k \<in> set (child_fields d).
                  (case get_prop s a k of
                     ArrRef r \<Rightarrow> (\<forall>c \<in> set (arrays s r). conforms n defs s c)
                   | c \<Rightarrow> conforms n defs s c)))
      | _ \<Rightarrow> False)"

text \<open>
  The nodes reachable from a node through the fields the schema names, in pre-order (the
  schema closure), and the events of a depth-first tour of them: enter, children, exit.
\<close>

fun reachable :: "nat \<Rightarrow> schema \<Rightarrow> 'a store_scheme \<Rightarrow> val \<Rightarrow> val list" where
  "reachable 0 defs s v = []"
| "reachable (Suc n) defs s v =
     (case lookup_definition defs (member s v ''type'') of
        None \<Rightarrow> []
      | Some d \<Rightarrow>
          v # concat (map (\<lambda>f. case member s v f of
                             ArrRef r \<Rightarrow> concat (map (reachable n defs s) (arrays s r))
                           | c \<Rightarrow> reachable n defs s c)
                      (child_fields d)))"

fun tour :: "nat \<Rightarrow> schema \<Rightarrow> 'a store_scheme \<Rightarrow> val \<Rightarrow> addr option \<Rightarrow> NodePath option
              \<Rightarrow> string option \<Rightarrow> nat option \<Rightarrow> event list" where
  "tour 0 defs s v par pp k lk = []"
| "tour (Suc n) defs s v par pp k lk =
     (case lookup_definition defs (member s v ''type'') of
        None \<Rightarrow> []
      | Some d \<Rightarrow>
          Event Enter (member s v ''type'') (NodePath v par pp k lk)
          # concat (map (\<lambda>f. case member s v f of
                             ArrRef r \<Rightarrow>
                               concat (map (\<lambda>(i, c). tour n defs s c (as_parent v)
                                               (Some (NodePath v par pp k lk)) (Some f) (Some i))
                                         (enumerate 0 (arrays s r)))
                           | c \<Rightarrow> tour n defs s c (as_parent v) (Some (NodePath v par pp k lk))
                                   (Some f) None)
                      (child_fields d))
          @ [Event Exit (member s v ''type'') (NodePath v par pp k lk)])"

text \<open>The empty visitor map \<^verbatim>\<open>{}\<close>, for either traversal.\<close>

definition no_visitors :: visitors where
  "no_visitors = object_literal []"

definition no_node_visitors :: node_visitors where
  "no_node_visitors = node_object_literal []"

text \<open>An event as the traversal without paths records it: the path holds the node alone.\<close>

definition bare :: "event \<Rightarrow> event" where
  "bare e = Event (phase_of e) (tag_of e) (NodePath (node (path_of e)) None None None None)"


text \<open>
  The hook called at an event, if any, and the events at which the walk is told to stop:
  the hook called there, given the path of the event, calls \<^verbatim>\<open>path.stop()\<close> whatever
  the store holds, after nothing but assignments of its own.
\<close>

definition hook_at :: "visitors \<Rightarrow> event \<Rightarrow> hook option" where
  "hook_at vis e =
     (case phase_of e of
        Enter \<Rightarrow> enter (visitorFuncs vis (tag_of e))
      | Exit \<Rightarrow> exit (visitorFuncs vis (tag_of e)))"



text \<open>
  Two trees that are structurally equal, and what corresponds in two walks of them. The
  objects and arrays of the one store are found in the other at other addresses: \<open>f\<close>
  renames the addresses of objects and \<open>g\<close> those of arrays, one-to-one, and the second
  store holds at the renamed address the renamed content (\<open>similar\<close>). A value, a path
  and an event of the first walk correspond to the renamed ones of the second.
\<close>

fun ren_val :: "(addr \<Rightarrow> addr) \<Rightarrow> (addr \<Rightarrow> addr) \<Rightarrow> val \<Rightarrow> val" where
  "ren_val f g (ObjRef a) = ObjRef (f a)"
| "ren_val f g (ArrRef r) = ArrRef (g r)"
| "ren_val f g Undefined = Undefined"
| "ren_val f g Null = Null"
| "ren_val f g (Num i) = Num i"
| "ren_val f g (Str t) = Str t"

primrec ren_path :: "(addr \<Rightarrow> addr) \<Rightarrow> (addr \<Rightarrow> addr) \<Rightarrow> NodePath \<Rightarrow> NodePath" where
  "ren_path f g (NodePath n p pp k lk) =
     NodePath (ren_val f g n) (map_option f p) (map_option (ren_path f g) pp) k lk"

definition ren_event :: "(addr \<Rightarrow> addr) \<Rightarrow> (addr \<Rightarrow> addr) \<Rightarrow> event \<Rightarrow> event" where
  "ren_event f g e = Event (phase_of e) (ren_val f g (tag_of e)) (ren_path f g (path_of e))"

definition ren_props ::
  "(addr \<Rightarrow> addr) \<Rightarrow> (addr \<Rightarrow> addr) \<Rightarrow> (string \<times> val) list \<Rightarrow> (string \<times> val) list" where
  "ren_props f g ps = map (\<lambda>(k, v). (k, ren_val f g v)) ps"

definition similar ::
  "(addr \<Rightarrow> addr) \<Rightarrow> (addr \<Rightarrow> addr) \<Rightarrow> 'a store_scheme \<Rightarrow> 'b store_scheme \<Rightarrow> bool" where
  "similar f g s t \<longleftrightarrow>
     inj f \<and> inj g \<and>
     (\<forall>a. objects t (f a) = ren_props f g (objects s a)) \<and>
     (\<forall>r. arrays t (g r) = map (ren_val f g) (arrays s r))"

text \<open>
  A hook is a pure function of the path it receives when it cannot tell the one tree from
  the other: given corresponding paths in similar stores, the hook of the second walk does
  what the hook of the first walk does, statement by statement, on the corresponding
  values (\<open>rel_hook\<close>); an assignment of its own takes similar stores to similar stores.
  \<open>rel_visitors\<close>: the two visitor maps have such hooks under the same names.
\<close>

fun rel_action :: "(addr \<Rightarrow> addr) \<Rightarrow> (addr \<Rightarrow> addr) \<Rightarrow> action \<Rightarrow> action \<Rightarrow> bool" where
  "rel_action f g (ReplaceWith v) b = (b = ReplaceWith (ren_val f g v))"
| "rel_action f g Remove b = (b = Remove)"
| "rel_action f g Stop b = (b = Stop)"
| "rel_action f g (Throw e) b = (b = Throw e)"
| "rel_action f g (Mutate m) b =
     (\<exists>m'. b = Mutate m' \<and> (\<forall>s t. similar f g s t \<longrightarrow> similar f g (m s) (m' t)))"

definition rel_hook :: "(addr \<Rightarrow> addr) \<Rightarrow> (addr \<Rightarrow> addr) \<Rightarrow> hook \<Rightarrow> hook \<Rightarrow> bool" where
  "rel_hook f g h h' \<longleftrightarrow>
     (\<forall>P s t. similar f g s t \<longrightarrow> list_all2 (rel_action f g) (h P s) (h' (ren_path f g P) t))"

fun rel_visitor :: "(addr \<Rightarrow> addr) \<Rightarrow> (addr \<Rightarrow> addr) \<Rightarrow> visitor \<Rightarrow> visitor \<Rightarrow> bool" where
  "rel_visitor f g (Func h) w = (\<exists>h'. w = Func h' \<and> rel_hook f g h h')"
| "rel_visitor f g (Hooks en ex) w =
     (\<exists>en' ex'. w = Hooks en' ex' \<and> rel_option (rel_hook f g) en en' \<and>
                rel_option (rel_hook f g) ex ex')"

definition rel_visitors :: "(addr \<Rightarrow> addr) \<Rightarrow> (addr \<Rightarrow> addr) \<Rightarrow> visitors \<Rightarrow> visitors \<Rightarrow> bool" where
  "rel_visitors f g vis vis' \<longleftrightarrow> (\<forall>name. rel_option (rel_visitor f g) (vis name) (vis' name))"

text \<open>
  A computation of the second walk corresponds to one of the first: started in a similar
  store it ends the same way, in a similar store, having added the renamed events.
\<close>

definition simulates ::
  "(addr \<Rightarrow> addr) \<Rightarrow> (addr \<Rightarrow> addr) \<Rightarrow> (state \<Rightarrow> result) \<Rightarrow> (state \<Rightarrow> result) \<Rightarrow> bool" where
  "simulates f g c c' \<longleftrightarrow>
     (\<forall>s t r s'. similar f g s t \<longrightarrow> c s = Some (r, s') \<longrightarrow>
        (\<exists>t' evs. c' t = Some (r, t') \<and> similar f g s' t' \<and>
           trace s' = trace s @ evs \<and> trace t' = trace t @ map (ren_event f g) evs))"

text \<open>The hook invocations of a trace: the phase and the name of the node type of each.\<close>

definition invocations :: "event list \<Rightarrow> (phase \<times> string) list" where
  "invocations evs = map (\<lambda>e. (phase_of e, property_name (tag_of e))) evs"

section \<open>The trees and visitors of the examples\<close>

definition empty_store :: state where
  "empty_store = \<lparr>objects = (\<lambda>a. []), arrays = (\<lambda>a. []), trace = []\<rparr>"

text \<open>
  Scenario A: the tree \<^verbatim>\<open>{type:"Program", body:[{type:"NumericLiteral", value:1}]}\<close>
  (object 0 with array 0, object 1), the literal \<^verbatim>\<open>{type:"Identifier", name:"x"}\<close>
  (object 2), the schema \<^verbatim>\<open>Program -> [body], NumericLiteral -> []\<close> and the visitor
  \<^verbatim>\<open>{NumericLiteral: {exit(path){path.replaceWith({type:"Identifier", name:"x"})}}}\<close>.
\<close>

definition schema_A :: schema where
  "schema_A = [''Program'' \<mapsto> \<lparr>visitor = Some [''body'']\<rparr>,
               ''NumericLiteral'' \<mapsto> \<lparr>visitor = Some []\<rparr>]"

definition store_A :: state where
  "store_A = empty_store
     \<lparr>objects := (\<lambda>a. [])
        (0 := [(''type'', Str ''Program''), (''body'', ArrRef 0)],
         1 := [(''type'', Str ''NumericLiteral''), (''value'', Num 1)],
         2 := [(''type'', Str ''Identifier''), (''name'', Str ''x'')]),
      arrays := (\<lambda>a. [])(0 := [ObjRef 1])\<rparr>"

definition visitors_A :: visitors where
  "visitors_A =
     object_literal [(''NumericLiteral'', Hooks None (Some (\<lambda>path st. [ReplaceWith (ObjRef 2)])))]"

text \<open>
  Scenario B: the tree \<^verbatim>\<open>{type:"Program", body:[{type:"A"},{type:"B"},{type:"C"}]}\<close>
  (object 0 with array 0, objects 1, 2 and 3), a schema in which \<^verbatim>\<open>A\<close>, \<^verbatim>\<open>B\<close> and
  \<^verbatim>\<open>C\<close> have no child field, and a visitor that removes \<^verbatim>\<open>B\<close> on enter.
\<close>

definition schema_B :: schema where
  "schema_B = [''Program'' \<mapsto> \<lparr>visitor = Some [''body'']\<rparr>,
               ''A'' \<mapsto> \<lparr>visitor = Some []\<rparr>,
               ''B'' \<mapsto> \<lparr>visitor = Some []\<rparr>,
               ''C'' \<mapsto> \<lparr>visitor = Some []\<rparr>]"

definition store_B :: state where
  "store_B = empty_store
     \<lparr>objects := (\<lambda>a. [])
        (0 := [(''type'', Str ''Program''), (''body'', ArrRef 0)],
         1 := [(''type'', Str ''A'')],
         2 := [(''type'', Str ''B'')],
         3 := [(''type'', Str ''C'')]),
      arrays := (\<lambda>a. [])(0 := [ObjRef 1, ObjRef 2, ObjRef 3])\<rparr>"

definition visitors_B :: visitors where
  "visitors_B = object_literal [(''B'', Hooks (Some (\<lambda>path st. [Remove])) None)]"

text \<open>
  The same with node types the module's own \<^verbatim>\<open>astDefinitionsMap\<close> knows: the tree
  \<^verbatim>\<open>{type:"Program", body:[a, b, c]}\<close> of three identifiers and the visitor
  \<^verbatim>\<open>{Identifier: {enter(path){ if (path.node.name === 'b') path.remove() }}}\<close>.
\<close>

definition store_abc :: state where
  "store_abc = empty_store
     \<lparr>objects := (\<lambda>a. [])
        (0 := [(''type'', Str ''Program''), (''body'', ArrRef 0)],
         1 := [(''type'', Str ''Identifier''), (''name'', Str ''a'')],
         2 := [(''type'', Str ''Identifier''), (''name'', Str ''b'')],
         3 := [(''type'', Str ''Identifier''), (''name'', Str ''c'')]),
      arrays := (\<lambda>a. [])(0 := [ObjRef 1, ObjRef 2, ObjRef 3])\<rparr>"

definition remove_b :: hook where
  "remove_b path st = (if member st (node path) ''name'' = Str ''b'' then [Remove] else [])"

definition visitors_abc :: visitors where
  "visitors_abc = object_literal [(''Identifier'', Hooks (Some remove_b) None)]"

text \<open>
  The tree the script itself walks, the parse of \<^verbatim>\<open>const a = 1;\<close> (objects 0 to 4,
  source positions left out), and beside it a second declarator
  \<^verbatim>\<open>{type:"VariableDeclarator", id:{type:"Identifier", name:"b"},
  init:{type:"Identifier", name:"c"}}\<close> (objects 5, 6 and 7) for a hook to put in.
\<close>

definition ast :: state where
  "ast = empty_store
     \<lparr>objects := (\<lambda>a. [])
        (0 := [(''type'', Str ''Program''), (''body'', ArrRef 0), (''sourceType'', Str ''script'')],
         1 := [(''type'', Str ''VariableDeclaration''), (''declarations'', ArrRef 1),
               (''kind'', Str ''const'')],
         2 := [(''type'', Str ''VariableDeclarator''), (''id'', ObjRef 3), (''init'', ObjRef 4)],
         3 := [(''type'', Str ''Identifier''), (''name'', Str ''a'')],
         4 := [(''type'', Str ''NumericLiteral''), (''value'', Num 1), (''raw'', Str ''1'')],
         5 := [(''type'', Str ''VariableDeclarator''), (''id'', ObjRef 6), (''init'', ObjRef 7)],
         6 := [(''type'', Str ''Identifier''), (''name'', Str ''b'')],
         7 := [(''type'', Str ''Identifier''), (''name'', Str ''c'')]),
      arrays := (\<lambda>a. [])(0 := [ObjRef 1], 1 := [ObjRef 2])\<rparr>"


text \<open>
  The parse of \<^verbatim>\<open>var a;\<close>: a declarator without initialiser has \<^verbatim>\<open>init: null\<close>.
\<close>

definition ast_var :: state where
  "ast_var = empty_store
     \<lparr>objects := (\<lambda>a. [])
        (0 := [(''type'', Str ''Program''), (''body'', ArrRef 0), (''sourceType'', Str ''script'')],
         1 := [(''type'', Str ''VariableDeclaration''), (''declarations'', ArrRef 1),
               (''kind'', Str ''var'')],
         2 := [(''type'', Str ''VariableDeclarator''), (''id'', ObjRef 3), (''init'', Null)],
         3 := [(''type'', Str ''Identifier''), (''name'', Str ''a'')]),
      arrays := (\<lambda>a. [])(0 := [ObjRef 1], 1 := [ObjRef 2])\<rparr>"

text \<open>
  The parse of \<^verbatim>\<open>const a = 1;\<close> and the second declarator once more, as another run of
  the script allocates them: the objects ten addresses further, the arrays two.
\<close>

definition ast_moved :: state where
  "ast_moved = empty_store
     \<lparr>objects := (\<lambda>a. [])
        (10 := [(''type'', Str ''Program''), (''body'', ArrRef 2), (''sourceType'', Str ''script'')],
         11 := [(''type'', Str ''VariableDeclaration''), (''declarations'', ArrRef 3),
                (''kind'', Str ''const'')],
         12 := [(''type'', Str ''VariableDeclarator''), (''id'', ObjRef 13), (''init'', ObjRef 14)],
         13 := [(''type'', Str ''Identifier''), (''name'', Str ''a'')],
         14 := [(''type'', Str ''NumericLiteral''), (''value'', Num 1), (''raw'', Str ''1'')],
         15 := [(''type'', Str ''VariableDeclarator''), (''id'', ObjRef 16), (''init'', ObjRef 17)],
         16 := [(''type'', Str ''Identifier''), (''name'', Str ''b'')],
         17 := [(''type'', Str ''Identifier''), (''name'', Str ''c'')]),
      arrays := (\<lambda>a. [])(2 := [ObjRef 11], 3 := [ObjRef 12])\<rparr>"

text \<open>The paths \<open>traverse\<close> builds for the program, its declaration and the declarator.\<close>

definition program_path :: NodePath where
  "program_path = NodePath (ObjRef 0) None None None None"

definition declaration_path :: NodePath where
  "declaration_path = NodePath (ObjRef 1) (Some 0) (Some program_path) (Some ''body'') (Some 0)"

definition declarator_path :: NodePath where
  "declarator_path =
     NodePath (ObjRef 2) (Some 1) (Some declaration_path) (Some ''declarations'') (Some 0)"


text \<open>Hooks: one that does nothing, and one for each method a hook may call.\<close>

definition no_op :: hook where
  "no_op path st = []"

definition replace_hook :: hook where
  "replace_hook path st = [ReplaceWith (ObjRef 5)]"

definition remove_hook :: hook where
  "remove_hook path st = [Remove]"


definition visitors_replace :: visitors where
  "visitors_replace =
     object_literal [(''VariableDeclarator'', Hooks (Some replace_hook) (Some no_op))]"

definition visitors_remove :: visitors where
  "visitors_remove =
     object_literal [(''VariableDeclarator'', Hooks (Some remove_hook) (Some no_op))]"


text \<open>The replacing visitor of the other run, whose literal is object 15.\<close>

definition replace_hook_moved :: hook where
  "replace_hook_moved path st = [ReplaceWith (ObjRef 15)]"

definition visitors_replace_moved :: visitors where
  "visitors_replace_moved =
     object_literal [(''VariableDeclarator'', Hooks (Some replace_hook_moved) (Some no_op))]"

definition visitors_root :: visitors where
  "visitors_root = object_literal [(''Program'', Func remove_hook)]"

text \<open>A path whose index lies beyond the end of the one-element body of scenario A.\<close>

definition stale_path :: NodePath where
  "stale_path = NodePath (ObjRef 1) (Some 0) None (Some ''body'') (Some 5)"

section \<open>Basic facts about the model\<close>

subsection \<open>Sequencing, and what leaves the trace alone\<close>

lemma andThen_ok:
  "andThen m f = Some (Inr u, s') \<longleftrightarrow> (\<exists>s1. m = Some (Inr (), s1) \<and> f s1 = Some (Inr u, s'))"
  by (cases "(m, f)" rule: andThen.cases) auto

lemma andThen_err:
  "andThen m f = Some (Inl e, s') \<longleftrightarrow>
     m = Some (Inl e, s') \<or> (\<exists>s1. m = Some (Inr (), s1) \<and> f s1 = Some (Inl e, s'))"
  by (cases "(m, f)" rule: andThen.cases) auto

lemma andThen_some:
  "andThen m f = Some (r, s') \<longleftrightarrow>
     (\<exists>e. m = Some (Inl e, s') \<and> r = Inl e) \<or> (\<exists>s1. m = Some (Inr (), s1) \<and> f s1 = Some (r, s'))"
  by (cases "(m, f)" rule: andThen.cases) auto

lemma call_splice_trace: "call_splice t i d xs s = Some (r, s') \<Longrightarrow> trace s' = trace s"
  by (auto simp: call_splice_def return_def throw_def split: val.splits)

lemma write_slot_trace: "write_slot p v s = Some (r, s') \<Longrightarrow> trace s' = trace s"
  by (auto simp: write_slot_def return_def throw_def set_prop_def split: option.splits)

lemma replaceWith_trace: "replaceWith p v s = Some (r, s') \<Longrightarrow> trace s' = trace s"
  by (auto simp: replaceWith_def return_def throw_def andThen_some
      split: sum.splits if_splits dest!: call_splice_trace write_slot_trace)

lemma remove_trace: "remove p s = Some (r, s') \<Longrightarrow> trace s' = trace s"
  by (auto simp: remove_def return_def throw_def andThen_some
      split: sum.splits if_splits dest!: call_splice_trace write_slot_trace)

lemma act_trace: "act p a s = Some (r, s') \<Longrightarrow> trace s' = trace s"
  by (cases a) (auto simp: throw_def return_def dest: replaceWith_trace remove_trace)

lemma perform_trace: "perform p as s = Some (r, s') \<Longrightarrow> trace s' = trace s"
  by (induction as arbitrary: s) (auto simp: return_def andThen_some dest: act_trace)

lemma fire_trace: "fire ph h ty p s = Some (r, s') \<Longrightarrow> trace s' = trace s @ [Event ph ty p]"
  by (auto simp: fire_def Let_def return_def split: option.splits dest: perform_trace)










lemma fire_hook:
  "fire ph (Some h) ty P s =
     perform P (h P (store.truncate (s\<lparr>trace := trace s @ [Event ph ty P]\<rparr>)))
       (s\<lparr>trace := trace s @ [Event ph ty P]\<rparr>)"
  by (simp add: fire_def Let_def)

lemma fire_no_hook: "fire ph None ty P s = return (s\<lparr>trace := trace s @ [Event ph ty P]\<rparr>)"
  by (simp add: fire_def Let_def)

lemma visitorFuncs_no_entry: "vis (property_name ty) = None \<Longrightarrow> visitorFuncs vis ty = Hooks None None"
  by (simp add: visitorFuncs_def)

lemma member_trace [simp]: "member (s\<lparr>trace := t\<rparr>) v k = member s v k"
  by (cases v) (simp_all add: member_def get_prop_def)

lemma get_prop_trace [simp]: "get_prop (s\<lparr>trace := t\<rparr>) a k = get_prop s a k"
  by (simp add: get_prop_def)

lemma set_prop_trace: "set_prop a k v (s\<lparr>trace := t\<rparr>) = (set_prop a k v s)\<lparr>trace := t\<rparr>"
  by (simp add: set_prop_def)

lemma truncate_trace [simp]: "store.truncate (s\<lparr>trace := t\<rparr>) = store.truncate s"
  by (simp add: store.truncate_def)

subsection \<open>One call of traverse, unfolded\<close>

lemma forEach_list_Nil_fields:
  "(case visitor d of None \<Rightarrow> return s | Some ks \<Rightarrow> forEach_list f ks s) = forEach_list f (child_fields d) s"
  by (simp add: child_fields_def split: option.splits)

lemma traverse_Suc:
  assumes "nd \<noteq> Undefined" "nd \<noteq> Null"
  shows "traverse (Suc n) defs vis nd par pp k lk s =
     andThen (fire Enter (enter (visitorFuncs vis (member s nd ''type''))) (member s nd ''type'')
                (NodePath nd par pp k lk) s)
       (\<lambda>s1. case lookup_definition defs (member s nd ''type'') of
          None \<Rightarrow> throw (TypeError ''Cannot read properties of undefined (reading visitor)'') s1
        | Some d \<Rightarrow>
            andThen (forEach_list (visit_field (traverse n defs vis) nd (NodePath nd par pp k lk))
                       (child_fields d) s1)
              (fire Exit (exit (visitorFuncs vis (member s nd ''type''))) (member s nd ''type'')
                 (NodePath nd par pp k lk)))"
  using assms by (simp add: Let_def forEach_list_Nil_fields cong: option.case_cong)

lemma traverse_ok_cases:
  assumes "traverse (Suc n) defs vis nd par pp k lk s = Some (Inr (), s')"
  obtains s1 d s2 where
    "fire Enter (enter (visitorFuncs vis (member s nd ''type''))) (member s nd ''type'')
        (NodePath nd par pp k lk) s = Some (Inr (), s1)"
    "lookup_definition defs (member s nd ''type'') = Some d"
    "forEach_list (visit_field (traverse n defs vis) nd (NodePath nd par pp k lk))
        (child_fields d) s1 = Some (Inr (), s2)"
    "fire Exit (exit (visitorFuncs vis (member s nd ''type''))) (member s nd ''type'')
        (NodePath nd par pp k lk) s2 = Some (Inr (), s')"
proof -
  from assms have nn: "nd \<noteq> Undefined" "nd \<noteq> Null"
    by (auto simp: throw_def)
  from assms[unfolded traverse_Suc[OF nn]] obtain s1 where
    en: "fire Enter (enter (visitorFuncs vis (member s nd ''type''))) (member s nd ''type'')
        (NodePath nd par pp k lk) s = Some (Inr (), s1)" and
    rest: "(case lookup_definition defs (member s nd ''type'') of
          None \<Rightarrow> throw (TypeError ''Cannot read properties of undefined (reading visitor)'') s1
        | Some d \<Rightarrow>
            andThen (forEach_list (visit_field (traverse n defs vis) nd (NodePath nd par pp k lk))
                       (child_fields d) s1)
              (fire Exit (exit (visitorFuncs vis (member s nd ''type''))) (member s nd ''type'')
                 (NodePath nd par pp k lk))) = Some (Inr (), s')"
    unfolding andThen_ok by blast
  from rest obtain d where d: "lookup_definition defs (member s nd ''type'') = Some d"
    by (cases "lookup_definition defs (member s nd ''type'')") (auto simp: throw_def)
  from rest[unfolded d] obtain s2 where
    "forEach_list (visit_field (traverse n defs vis) nd (NodePath nd par pp k lk))
        (child_fields d) s1 = Some (Inr (), s2)"
    "fire Exit (exit (visitorFuncs vis (member s nd ''type''))) (member s nd ''type'')
        (NodePath nd par pp k lk) s2 = Some (Inr (), s')"
    unfolding option.case andThen_ok by blast
  with en d show thesis by (rule that)
qed

text \<open>Every way a call of \<open>traverse\<close> can end.\<close>

lemma traverse_cases:
  assumes run: "traverse (Suc n) defs vis nd par pp k lk s = Some (r, s')"
  defines "ty \<equiv> member s nd ''type''"
  defines "P \<equiv> NodePath nd par pp k lk"
  obtains
    (no_node) "nd = Undefined \<or> nd = Null" "s' = s"
      "r = Inl (TypeError ''Cannot read properties of undefined (reading type)'') \<or>
       r = Inl (TypeError ''Cannot read properties of null (reading type)'')"
  | (enter_throws) e where "fire Enter (enter (visitorFuncs vis ty)) ty P s = Some (Inl e, s')" "r = Inl e"
  | (no_definition) "fire Enter (enter (visitorFuncs vis ty)) ty P s = Some (Inr (), s')"
      "lookup_definition defs ty = None"
      "r = Inl (TypeError ''Cannot read properties of undefined (reading visitor)'')"
  | (child_throws) s1 d e where "fire Enter (enter (visitorFuncs vis ty)) ty P s = Some (Inr (), s1)"
      "lookup_definition defs ty = Some d"
      "forEach_list (visit_field (traverse n defs vis) nd P) (child_fields d) s1 = Some (Inl e, s')"
      "r = Inl e"
  | (reaches_exit) s1 d s2 where "fire Enter (enter (visitorFuncs vis ty)) ty P s = Some (Inr (), s1)"
      "lookup_definition defs ty = Some d"
      "forEach_list (visit_field (traverse n defs vis) nd P) (child_fields d) s1 = Some (Inr (), s2)"
      "fire Exit (exit (visitorFuncs vis ty)) ty P s2 = Some (r, s')"
proof (cases "nd = Undefined \<or> nd = Null")
  case True
  with run have "s' = s"
    "r = Inl (TypeError ''Cannot read properties of undefined (reading type)'') \<or>
     r = Inl (TypeError ''Cannot read properties of null (reading type)'')"
    by (auto simp: throw_def)
  with True show thesis by (rule no_node)
next
  case False
  then have nn: "nd \<noteq> Undefined" "nd \<noteq> Null" by auto
  note eq = run[unfolded traverse_Suc[OF nn], folded ty_def P_def]
  from eq consider
    (a) e where "fire Enter (enter (visitorFuncs vis ty)) ty P s = Some (Inl e, s')" "r = Inl e"
  | (b) s1 where "fire Enter (enter (visitorFuncs vis ty)) ty P s = Some (Inr (), s1)"
      "(case lookup_definition defs ty of
          None \<Rightarrow> throw (TypeError ''Cannot read properties of undefined (reading visitor)'') s1
        | Some d \<Rightarrow>
            andThen (forEach_list (visit_field (traverse n defs vis) nd P) (child_fields d) s1)
              (fire Exit (exit (visitorFuncs vis ty)) ty P)) = Some (r, s')"
    unfolding andThen_some by blast
  then show thesis
  proof cases
    case a
    then show thesis by (rule enter_throws)
  next
    case b
    show thesis
    proof (cases "lookup_definition defs ty")
      case None
      with b(2) have "s' = s1" "r = Inl (TypeError ''Cannot read properties of undefined (reading visitor)'')"
        by (auto simp: throw_def)
      with b(1) None show thesis by (auto intro: no_definition)
    next
      case (Some d)
      with b(2) have "andThen (forEach_list (visit_field (traverse n defs vis) nd P) (child_fields d) s1)
              (fire Exit (exit (visitorFuncs vis ty)) ty P) = Some (r, s')" by simp
      then consider
        (c) e where "forEach_list (visit_field (traverse n defs vis) nd P) (child_fields d) s1 = Some (Inl e, s')" "r = Inl e"
      | (d) s2 where "forEach_list (visit_field (traverse n defs vis) nd P) (child_fields d) s1 = Some (Inr (), s2)"
           "fire Exit (exit (visitorFuncs vis ty)) ty P s2 = Some (r, s')"
        unfolding andThen_some by blast
      then show thesis
      proof cases
        case c
        with b(1) Some show thesis by (auto intro: child_throws)
      next
        case d
        with b(1) Some show thesis by (auto intro: reaches_exit)
      qed
    qed
  qed
qed

lemma traverse_after_enter:
  assumes nn: "nd \<noteq> Undefined" "nd \<noteq> Null"
    and ty: "ty = member s nd ''type''"
    and P: "P = NodePath nd par pp k lk"
    and en: "fire Enter (enter (visitorFuncs vis ty)) ty P s = Some (Inr (), s2)"
    and d: "lookup_definition defs ty = Some d"
  shows "traverse (Suc n) defs vis nd par pp k lk s =
           andThen (forEach_list (visit_field (traverse n defs vis) nd P) (child_fields d) s2)
             (fire Exit (exit (visitorFuncs vis ty)) ty P)"
  using en d unfolding traverse_Suc[OF nn] ty P by simp

subsection \<open>Invariants of the loops\<close>

text \<open>
  A property \<open>I\<close> of the outcome and the events added that holds of every call of the
  callback, holds of nothing done, and is kept when a returning call is followed by more,
  holds of the loop.
\<close>

lemma forEach_from_inv:
  assumes base: "I (Inr ()) []"
    and comp: "\<And>e1 r e2. I (Inr ()) e1 \<Longrightarrow> I r e2 \<Longrightarrow> I r (e1 @ e2)"
    and cb: "\<And>c i s r s'. f c i s = Some (r, s') \<Longrightarrow> \<exists>evs. trace s' = trace s @ evs \<and> I r evs"
  shows "forEach_from f a j m s = Some (r, s') \<Longrightarrow> \<exists>evs. trace s' = trace s @ evs \<and> I r evs"
proof (induction m arbitrary: j s)
  case 0
  then show ?case using base by (auto simp: return_def)
next
  case (Suc m)
  show ?case
  proof (cases "j < length (arrays s a)")
    case False
    with Suc.prems have "forEach_from f a (Suc j) m s = Some (r, s')" by simp
    from Suc.IH[OF this] show ?thesis .
  next
    case True
    with Suc.prems have
      "andThen (f (arrays s a ! j) j s) (forEach_from f a (Suc j) m) = Some (r, s')" by simp
    then consider
      (err) e where "f (arrays s a ! j) j s = Some (Inl e, s')" "r = Inl e"
      | (ok) s1 where "f (arrays s a ! j) j s = Some (Inr (), s1)"
                      "forEach_from f a (Suc j) m s1 = Some (r, s')"
      unfolding andThen_some by blast
    then show ?thesis
    proof cases
      case err
      from cb[OF err(1)] err(2) show ?thesis by simp
    next
      case ok
      from cb[OF ok(1)] obtain e1 where e1: "trace s1 = trace s @ e1" "I (Inr ()) e1" by blast
      from Suc.IH[OF ok(2)] obtain e2 where e2: "trace s' = trace s1 @ e2" "I r e2" by blast
      from comp[OF e1(2) e2(2)] e1(1) e2(1) show ?thesis by auto
    qed
  qed
qed

lemma forEach_list_inv:
  assumes base: "I (Inr ()) []"
    and comp: "\<And>e1 r e2. I (Inr ()) e1 \<Longrightarrow> I r e2 \<Longrightarrow> I r (e1 @ e2)"
    and cb: "\<And>x s r s'. f x s = Some (r, s') \<Longrightarrow> \<exists>evs. trace s' = trace s @ evs \<and> I r evs"
  shows "forEach_list f xs s = Some (r, s') \<Longrightarrow> \<exists>evs. trace s' = trace s @ evs \<and> I r evs"
proof (induction xs arbitrary: s)
  case Nil
  then show ?case using base by (auto simp: return_def)
next
  case (Cons x xs)
  from Cons.prems consider
    (err) e where "f x s = Some (Inl e, s')" "r = Inl e"
    | (ok) s1 where "f x s = Some (Inr (), s1)" "forEach_list f xs s1 = Some (r, s')"
    unfolding forEach_list.simps andThen_some by blast
  then show ?case
  proof cases
    case err
    from cb[OF err(1)] err(2) show ?thesis by simp
  next
    case ok
    from cb[OF ok(1)] obtain e1 where e1: "trace s1 = trace s @ e1" "I (Inr ()) e1" by blast
    from Cons.IH[OF ok(2)] obtain e2 where e2: "trace s' = trace s1 @ e2" "I r e2" by blast
    from comp[OF e1(2) e2(2)] e1(1) e2(1) show ?thesis by auto
  qed
qed

lemma visit_field_inv:
  assumes base: "I (Inr ()) []"
    and comp: "\<And>e1 r e2. I (Inr ()) e1 \<Longrightarrow> I r e2 \<Longrightarrow> I r (e1 @ e2)"
    and rec: "\<And>c lk s r s'. rec c (as_parent nd) (Some P) (Some k) lk s = Some (r, s') \<Longrightarrow>
                \<exists>evs. trace s' = trace s @ evs \<and> I r evs"
    and run: "visit_field rec nd P k s = Some (r, s')"
  shows "\<exists>evs. trace s' = trace s @ evs \<and> I r evs"
proof (cases "member s nd k")
  case (ArrRef a)
  with run have loop: "forEach_from (\<lambda>c i. rec c (as_parent nd) (Some P) (Some k) (Some i)) a 0
                   (length (arrays s a)) s = Some (r, s')"
    by (simp add: visit_field_def forEach_array_def)
  show ?thesis
  proof (rule forEach_from_inv[where I = I, OF base comp _ loop])
    fix c i s r s'
    assume "rec c (as_parent nd) (Some P) (Some k) (Some i) s = Some (r, s')"
    then show "\<exists>evs. trace s' = trace s @ evs \<and> I r evs" by (rule rec)
  qed (assumption+)
qed (use run rec in \<open>auto simp: visit_field_def\<close>)

lemma fields_inv:
  assumes base: "I (Inr ()) []"
    and comp: "\<And>e1 r e2. I (Inr ()) e1 \<Longrightarrow> I r e2 \<Longrightarrow> I r (e1 @ e2)"
    and rec: "\<And>c k lk s r s'. rec c (as_parent nd) (Some P) (Some k) lk s = Some (r, s') \<Longrightarrow>
                \<exists>evs. trace s' = trace s @ evs \<and> I r evs"
    and run: "forEach_list (visit_field rec nd P) ks s = Some (r, s')"
  shows "\<exists>evs. trace s' = trace s @ evs \<and> I r evs"
proof (rule forEach_list_inv[where I = I, OF base comp _ run])
  fix x s r s'
  assume vf: "visit_field rec nd P x s = Some (r, s')"
  show "\<exists>evs. trace s' = trace s @ evs \<and> I r evs"
  proof (rule visit_field_inv[where I = I, OF base comp _ vf])
    fix c lk s r s'
    assume "rec c (as_parent nd) (Some P) (Some x) lk s = Some (r, s')"
    then show "\<exists>evs. trace s' = trace s @ evs \<and> I r evs" by (rule rec)
  qed (assumption+)
qed (assumption+)

subsection \<open>Paths and their ancestors\<close>

lemma ancestors_size: "q \<in> set (ancestors p) \<Longrightarrow> size q < size p"
proof (induction p arbitrary: q rule: ancestors.induct)
  case (1 n p pp k lk)
  then show ?case by (cases pp) (auto, fastforce)
qed

lemma not_own_ancestor: "P \<notin> set (ancestors P)"
  using ancestors_size[of P P] by auto

lemma ancestors_trans: "c \<in> set (ancestors p) \<Longrightarrow> q \<in> set (ancestors c) \<Longrightarrow> q \<in> set (ancestors p)"
proof (induction p rule: ancestors.induct)
  case (1 n p pp k lk)
  then show ?case by (cases pp) auto
qed

lemma traverse_within:
  "traverse n defs vis nd par pp k lk s = Some (r, s') \<Longrightarrow>
   \<exists>evs. trace s' = trace s @ evs \<and>
     (\<forall>e \<in> set evs. path_of e = NodePath nd par pp k lk \<or> within (NodePath nd par pp k lk) e)"
proof (induction n arbitrary: nd par pp k lk s r s')
  case 0
  then show ?case by simp
next
  case (Suc n)
  let ?ty = "member s nd ''type''"
  let ?P = "NodePath nd par pp k lk"
  have kids: "\<exists>evs. trace b = trace a @ evs \<and> (\<forall>e \<in> set evs. within ?P e)"
    if "forEach_list (visit_field (traverse n defs vis) nd ?P) ks a = Some (x, b)" for ks a x b
  proof (rule fields_inv[where I = "\<lambda>r evs. \<forall>e \<in> set evs. within ?P e", OF _ _ _ that])
    fix c k' lk' s r s'
    assume "traverse n defs vis c (as_parent nd) (Some ?P) (Some k') lk' s = Some (r, s')"
    from Suc.IH[OF this] obtain evs where
      evs: "trace s' = trace s @ evs"
        "\<forall>e \<in> set evs. path_of e = NodePath c (as_parent nd) (Some ?P) (Some k') lk' \<or>
                         within (NodePath c (as_parent nd) (Some ?P) (Some k') lk') e"
      by blast
    have "within ?P e" if "e \<in> set evs" for e
      using evs(2) that ancestors_trans[of "NodePath c (as_parent nd) (Some ?P) (Some k') lk'" "path_of e" ?P]
      by (auto simp: within_def)
    with evs(1) show "\<exists>evs. trace s' = trace s @ evs \<and> (\<forall>e \<in> set evs. within ?P e)" by blast
  qed auto
  from Suc.prems show ?case
  proof (cases rule: traverse_cases)
    case no_node
    then show ?thesis by auto
  next
    case (enter_throws e)
    from fire_trace[OF enter_throws(1)] show ?thesis by auto
  next
    case no_definition
    from fire_trace[OF no_definition(1)] show ?thesis by auto
  next
    case (child_throws s1 d e)
    from kids[OF child_throws(3)] fire_trace[OF child_throws(1)] show ?thesis by auto
  next
    case (reaches_exit s1 d s2)
    from kids[OF reaches_exit(3)] fire_trace[OF reaches_exit(1)] fire_trace[OF reaches_exit(4)]
    show ?thesis by auto
  qed
qed

lemma fields_within:
  assumes "forEach_list (visit_field (traverse n defs vis) nd P) ks a = Some (x, b)"
  shows "\<exists>evs. trace b = trace a @ evs \<and> (\<forall>e \<in> set evs. within P e)"
proof (rule fields_inv[where I = "\<lambda>r evs. \<forall>e \<in> set evs. within P e", OF _ _ _ assms])
  fix c k' lk' s r s'
  assume "traverse n defs vis c (as_parent nd) (Some P) (Some k') lk' s = Some (r, s')"
  from traverse_within[OF this] obtain evs where
    evs: "trace s' = trace s @ evs"
      "\<forall>e \<in> set evs. path_of e = NodePath c (as_parent nd) (Some P) (Some k') lk' \<or>
                       within (NodePath c (as_parent nd) (Some P) (Some k') lk') e"
    by blast
  have "within P e" if "e \<in> set evs" for e
    using evs(2) that ancestors_trans[of "NodePath c (as_parent nd) (Some P) (Some k') lk'" "path_of e" P]
    by (auto simp: within_def)
  with evs(1) show "\<exists>evs. trace s' = trace s @ evs \<and> (\<forall>e \<in> set evs. within P e)" by blast
qed auto

lemma traverse_returns_shape:
  assumes run: "traverse (Suc n) defs vis nd par pp k lk s = Some (Inr (), s')"
  shows "\<exists>evs. trace s' = trace s @ Event Enter (member s nd ''type'') (NodePath nd par pp k lk) # evs
                    @ [Event Exit (member s nd ''type'') (NodePath nd par pp k lk)] \<and>
               (\<forall>e \<in> set evs. within (NodePath nd par pp k lk) e)"
proof -
  let ?ty = "member s nd ''type''"
  let ?P = "NodePath nd par pp k lk"
  from run obtain s1 d s2 where
    en: "fire Enter (enter (visitorFuncs vis ?ty)) ?ty ?P s = Some (Inr (), s1)" and
    kids: "forEach_list (visit_field (traverse n defs vis) nd ?P) (child_fields d) s1 = Some (Inr (), s2)" and
    ex: "fire Exit (exit (visitorFuncs vis ?ty)) ?ty ?P s2 = Some (Inr (), s')"
    by (rule traverse_ok_cases)
  from fields_within[OF kids] obtain evs where
    "trace s2 = trace s1 @ evs" "\<forall>e \<in> set evs. within ?P e" by auto
  with fire_trace[OF en] fire_trace[OF ex] show ?thesis by auto
qed

subsection \<open>More fuel changes nothing\<close>

lemma andThen_mono:
  assumes "andThen m f = Some x" and "\<And>s. f s = Some x \<Longrightarrow> g s = Some x"
  shows "andThen m g = Some x"
  using assms by (cases "(m, f)" rule: andThen.cases) auto

lemma forEach_list_mono:
  assumes "\<And>x s y. f x s = Some y \<Longrightarrow> g x s = Some y"
  shows "forEach_list f xs s = Some y \<Longrightarrow> forEach_list g xs s = Some y"
proof (induction xs arbitrary: s)
  case Nil
  then show ?case by simp
next
  case (Cons x xs)
  from Cons.prems have "andThen (f x s) (forEach_list f xs) = Some y" by simp
  then have "andThen (f x s) (forEach_list g xs) = Some y"
    by (rule andThen_mono) (rule Cons.IH)
  moreover from this obtain z where "f x s = Some z"
    by (cases "f x s") auto
  ultimately show ?case using assms[of x s z] by simp
qed

lemma forEach_from_mono:
  assumes "\<And>c i s y. f c i s = Some y \<Longrightarrow> g c i s = Some y"
  shows "forEach_from f a j m s = Some y \<Longrightarrow> forEach_from g a j m s = Some y"
proof (induction m arbitrary: j s)
  case 0
  then show ?case by simp
next
  case (Suc m)
  show ?case
  proof (cases "j < length (arrays s a)")
    case False
    with Suc.prems Suc.IH[of "Suc j" s] show ?thesis by simp
  next
    case True
    with Suc.prems have "andThen (f (arrays s a ! j) j s) (forEach_from f a (Suc j) m) = Some y"
      by simp
    then have "andThen (f (arrays s a ! j) j s) (forEach_from g a (Suc j) m) = Some y"
      by (rule andThen_mono) (rule Suc.IH)
    moreover from this obtain z where "f (arrays s a ! j) j s = Some z"
      by (cases "f (arrays s a ! j) j s") auto
    ultimately show ?thesis using True assms[of "arrays s a ! j" j s z] by simp
  qed
qed

lemma visit_field_mono:
  assumes "\<And>c par pp k lk s y. f c par pp k lk s = Some y \<Longrightarrow> g c par pp k lk s = Some y"
    and "visit_field f nd P k s = Some y"
  shows "visit_field g nd P k s = Some y"
proof (cases "member s nd k")
  case (ArrRef a)
  with assms(2) have "forEach_from (\<lambda>c i. f c (as_parent nd) (Some P) (Some k) (Some i)) a 0
      (length (arrays s a)) s = Some y"
    by (simp add: visit_field_def forEach_array_def)
  then have "forEach_from (\<lambda>c i. g c (as_parent nd) (Some P) (Some k) (Some i)) a 0
      (length (arrays s a)) s = Some y"
    by (rule forEach_from_mono[rotated]) (rule assms(1))
  with ArrRef show ?thesis by (simp add: visit_field_def forEach_array_def)
qed (use assms in \<open>auto simp: visit_field_def\<close>)

lemma traverse_more_fuel:
  "traverse n defs vis nd par pp k lk s = Some y \<Longrightarrow> traverse (Suc n) defs vis nd par pp k lk s = Some y"
proof (induction n arbitrary: nd par pp k lk s y)
  case 0
  then show ?case by simp
next
  case (Suc n)
  show ?case
  proof (cases "nd = Undefined \<or> nd = Null")
    case True
    with Suc.prems show ?thesis by auto
  next
    case False
    then have nn: "nd \<noteq> Undefined" "nd \<noteq> Null" by auto
    let ?ty = "member s nd ''type''"
    let ?P = "NodePath nd par pp k lk"
    have step: "\<And>s1 d. andThen (forEach_list (visit_field (traverse n defs vis) nd ?P) (child_fields d) s1)
                    (fire Exit (exit (visitorFuncs vis ?ty)) ?ty ?P) = Some y \<Longrightarrow>
                 andThen (forEach_list (visit_field (traverse (Suc n) defs vis) nd ?P) (child_fields d) s1)
                    (fire Exit (exit (visitorFuncs vis ?ty)) ?ty ?P) = Some y"
    proof -
      fix s1 d
      let ?A = "forEach_list (visit_field (traverse n defs vis) nd ?P) (child_fields d) s1"
      let ?B = "forEach_list (visit_field (traverse (Suc n) defs vis) nd ?P) (child_fields d) s1"
      assume a: "andThen ?A (fire Exit (exit (visitorFuncs vis ?ty)) ?ty ?P) = Some y"
      then obtain z where z: "?A = Some z" by (cases ?A) auto
      have "?B = Some z"
        using z
      proof (rule forEach_list_mono[rotated])
        fix x s y
        assume "visit_field (traverse n defs vis) nd ?P x s = Some y"
        then show "visit_field (traverse (Suc n) defs vis) nd ?P x s = Some y"
          by (rule visit_field_mono[rotated]) (rule Suc.IH)
      qed
      with a z show "andThen ?B (fire Exit (exit (visitorFuncs vis ?ty)) ?ty ?P) = Some y" by simp
    qed
    from Suc.prems show ?thesis
      unfolding traverse_Suc[OF nn]
      by (rule andThen_mono) (auto split: option.splits intro: step)
  qed
qed

lemma traverse_fuel_add:
  "traverse n defs vis nd par pp k lk s = Some y \<Longrightarrow> traverse (n + m) defs vis nd par pp k lk s = Some y"
  by (induction m) (auto dest: traverse_more_fuel)

lemma traverse_fuel_independent:
  assumes "traverse n1 defs vis nd par pp k lk s = Some (r1, s1)"
    and "traverse n2 defs vis nd par pp k lk s = Some (r2, s2)"
  shows "r1 = r2 \<and> s1 = s2"
proof -
  from traverse_fuel_add[OF assms(1), of n2] traverse_fuel_add[OF assms(2), of n1]
  show ?thesis by (simp add: add.commute)
qed

section \<open>Replacing and removing through a path: the scenarios\<close>

text \<open>
  C1 (replaceWith splices one element at the path's index; scenario A leaves
  \<^verbatim>\<open>root.body[0]\<close> equal to the identifier). On scenario A the code does otherwise. The
  literal sits at index 0, which \<^verbatim>\<open>if (this.listKey)\<close> takes for no index, and the
  assignment after the \<^verbatim>\<open>if\<close> runs in every case: the walk returns with
  \<^verbatim>\<open>root.body\<close> being the identifier itself, not an array holding it, so that
  \<^verbatim>\<open>root.body[0]\<close> is \<open>undefined\<close>; the array that was the body still holds the
  numeric literal. With the module's own \<^verbatim>\<open>astDefinitionsMap\<close> for the schema the result
  is the same.
\<close>

theorem scenario_A_body_overwritten:
  "outcome (walk 3 schema_A visitors_A (ObjRef 0) store_A) = Some (Inr ()) \<and>
   final_object (walk 3 schema_A visitors_A (ObjRef 0) store_A) 0
     = Some [(''type'', Str ''Program''), (''body'', ObjRef 2)] \<and>
   final_object (walk 3 schema_A visitors_A (ObjRef 0) store_A) 2
     = Some [(''type'', Str ''Identifier''), (''name'', Str ''x'')] \<and>
   final_array (walk 3 schema_A visitors_A (ObjRef 0) store_A) 0 = Some [ObjRef 1] \<and>
   final_object (walk 3 astDefinitionsMap visitors_A (ObjRef 0) store_A) 0
     = Some [(''type'', Str ''Program''), (''body'', ObjRef 2)]"
  by code_simp

text \<open>
  C2 (remove splices the element out, later siblings are each still visited once; scenario B
  leaves \<^verbatim>\<open>root.body\<close> equal to \<^verbatim>\<open>[A, C]\<close> with \<^verbatim>\<open>A\<close> and \<^verbatim>\<open>C\<close>
  visited once). On scenario B the code does otherwise: the array is spliced to
  \<^verbatim>\<open>[A, C]\<close>, but the assignment after the \<^verbatim>\<open>if\<close> then sets \<^verbatim>\<open>root.body\<close> to
  \<open>null\<close>, and the running \<^verbatim>\<open>forEach\<close> goes on to index 2, which the array no longer
  has: \<^verbatim>\<open>C\<close> (object 3) is never visited, while \<^verbatim>\<open>B\<close> (object 2) still gets its
  exit. The same happens on the three identifiers \<^verbatim>\<open>a\<close>, \<^verbatim>\<open>b\<close>, \<^verbatim>\<open>c\<close> with the
  module's own \<^verbatim>\<open>astDefinitionsMap\<close>.
\<close>

theorem scenario_B_body_null_and_C_skipped:
  "outcome (walk 3 schema_B visitors_B (ObjRef 0) store_B) = Some (Inr ()) \<and>
   final_object (walk 3 schema_B visitors_B (ObjRef 0) store_B) 0
     = Some [(''type'', Str ''Program''), (''body'', Null)] \<and>
   final_array (walk 3 schema_B visitors_B (ObjRef 0) store_B) 0 = Some [ObjRef 1, ObjRef 3] \<and>
   final_visits (walk 3 schema_B visitors_B (ObjRef 0) store_B)
     = Some [(Enter, ObjRef 0), (Enter, ObjRef 1), (Exit, ObjRef 1),
             (Enter, ObjRef 2), (Exit, ObjRef 2), (Exit, ObjRef 0)] \<and>
   outcome (walk 3 astDefinitionsMap visitors_abc (ObjRef 0) store_abc) = Some (Inr ()) \<and>
   final_object (walk 3 astDefinitionsMap visitors_abc (ObjRef 0) store_abc) 0
     = Some [(''type'', Str ''Program''), (''body'', Null)] \<and>
   final_array (walk 3 astDefinitionsMap visitors_abc (ObjRef 0) store_abc) 0
     = Some [ObjRef 1, ObjRef 3] \<and>
   final_visits (walk 3 astDefinitionsMap visitors_abc (ObjRef 0) store_abc)
     = Some [(Enter, ObjRef 0), (Enter, ObjRef 1), (Exit, ObjRef 1),
             (Enter, ObjRef 2), (Exit, ObjRef 2), (Exit, ObjRef 0)]"
  by code_simp

section \<open>A mutation in an enter hook does not redirect the walk\<close>

text \<open>
  C3 as the specification states it: after \<^verbatim>\<open>replaceWith(M)\<close> in a node's enter hook the
  path refers to \<^verbatim>\<open>M\<close>, the engine descends into the children of \<^verbatim>\<open>M\<close> and the exit
  hook gets a path referring to \<^verbatim>\<open>M\<close>. The code does not: on \<^verbatim>\<open>const a = 1;\<close>, with an
  enter hook that replaces the declarator (object 2) by the declarator of objects 5, 6 and 7,
  the field of the parent holds object 5 after the walk, yet the walk went on into objects 3
  and 4, the children of the node replaced, never into 6 or 7, and the exit came for object 2.
\<close>

theorem replaceWith_on_enter_counterexample:
  "outcome (walk 5 astDefinitionsMap visitors_replace (ObjRef 0) ast) = Some (Inr ()) \<and>
   final_object (walk 5 astDefinitionsMap visitors_replace (ObjRef 0) ast) 1
     = Some [(''type'', Str ''VariableDeclaration''), (''declarations'', ObjRef 5),
             (''kind'', Str ''const'')] \<and>
   final_visits (walk 5 astDefinitionsMap visitors_replace (ObjRef 0) ast)
     = Some [(Enter, ObjRef 0), (Enter, ObjRef 1), (Enter, ObjRef 2), (Enter, ObjRef 3),
             (Exit, ObjRef 3), (Enter, ObjRef 4), (Exit, ObjRef 4), (Exit, ObjRef 2),
             (Exit, ObjRef 1), (Exit, ObjRef 0)]"
  by code_simp

text \<open>
  C3, amended: when the enter hook of a node calls \<^verbatim>\<open>replaceWith(M)\<close> and returns
  (in state \<open>s2\<close>), the path keeps referring to the original node; the engine then goes through the
  child fields of the original node, in the order of the schema entry of the original
  node's type, with that path as the children's parent path, and then fires the exit hook
  registered for the original type with that same path. Every event between the enter and
  the exit of the activation belongs to an activation below this path.
\<close>

theorem replaceWith_on_enter_keeps_original:
  assumes "nd \<noteq> Undefined" "nd \<noteq> Null"
    and "ty = member s nd ''type''"
    and "P = NodePath nd par pp k lk"
    and "s1 = s\<lparr>trace := trace s @ [Event Enter ty P]\<rparr>"
    and "enter (visitorFuncs vis ty) = Some h"
    and "ReplaceWith m \<in> set (h P (store.truncate s))"
    and "perform P (h P (store.truncate s)) s1 = Some (Inr (), s2)"
    and "lookup_definition defs ty = Some d"
  shows "node P = nd \<and>
         traverse (Suc n) defs vis nd par pp k lk s =
           andThen (forEach_list (visit_field (traverse n defs vis) nd P) (child_fields d) s2)
             (fire Exit (exit (visitorFuncs vis ty)) ty P) \<and>
         (\<forall>s'. traverse (Suc n) defs vis nd par pp k lk s = Some (Inr (), s') \<longrightarrow>
            (\<exists>evs. trace s' = trace s @ Event Enter ty P # evs @ [Event Exit ty P] \<and>
                   (\<forall>e \<in> set evs. within P e)))"
proof -
  have "fire Enter (enter (visitorFuncs vis ty)) ty P s = Some (Inr (), s2)"
    using assms(5,6,8) by (simp add: fire_hook)
  from traverse_after_enter[OF assms(1,2,3,4) this assms(9)]
  show ?thesis
    using traverse_returns_shape[of n defs vis nd par pp k lk s] assms(3,4) by auto
qed

theorem replaceWith_on_enter_keeps_original_witness:
  "node declarator_path = ObjRef 2 \<and>
   traverse 2 astDefinitionsMap visitors_replace (ObjRef 2) (Some 1) (Some declaration_path)
       (Some ''declarations'') (Some 0) ast
     = andThen
         (forEach_list
            (visit_field (traverse 1 astDefinitionsMap visitors_replace) (ObjRef 2) declarator_path)
            (child_fields \<lparr>visitor = Some [''id'', ''init'']\<rparr>)
            (set_prop 1 ''declarations'' (ObjRef 5)
               (ast\<lparr>trace := trace ast @ [Event Enter (Str ''VariableDeclarator'') declarator_path]\<rparr>)))
         (fire Exit (exit (visitorFuncs visitors_replace (Str ''VariableDeclarator'')))
            (Str ''VariableDeclarator'') declarator_path) \<and>
   (\<exists>s' evs. traverse 2 astDefinitionsMap visitors_replace (ObjRef 2) (Some 1)
                (Some declaration_path) (Some ''declarations'') (Some 0) ast = Some (Inr (), s') \<and>
      trace s' = trace ast @ Event Enter (Str ''VariableDeclarator'') declarator_path # evs
                   @ [Event Exit (Str ''VariableDeclarator'') declarator_path])"
proof -
  let ?s1 = "ast\<lparr>trace := trace ast @ [Event Enter (Str ''VariableDeclarator'') declarator_path]\<rparr>"
  have nn: "ObjRef 2 \<noteq> Undefined" "ObjRef 2 \<noteq> Null" by simp_all
  have ty: "Str ''VariableDeclarator'' = member ast (ObjRef 2) ''type''"
    by (simp add: member_def get_prop_def ast_def empty_store_def)
  have P: "declarator_path
             = NodePath (ObjRef 2) (Some 1) (Some declaration_path) (Some ''declarations'') (Some 0)"
    by (simp add: declarator_path_def)
  have en: "enter (visitorFuncs visitors_replace (Str ''VariableDeclarator'')) = Some replace_hook"
    by (simp add: visitorFuncs_def visitors_replace_def object_literal_def property_name_def)
  have acts: "ReplaceWith (ObjRef 5) \<in> set (replace_hook declarator_path (store.truncate ast))"
    by (simp add: replace_hook_def)
  have rw: "perform declarator_path (replace_hook declarator_path (store.truncate ast)) ?s1
              = Some (Inr (), set_prop 1 ''declarations'' (ObjRef 5) ?s1)"
    by (simp add: replace_hook_def replaceWith_def write_slot_def declarator_path_def truthy_def
        key_name_def return_def)
  have d: "lookup_definition astDefinitionsMap (Str ''VariableDeclarator'')
             = Some \<lparr>visitor = Some [''id'', ''init'']\<rparr>"
    by (simp add: lookup_definition_def astDefinitionsMap_def)
  note inst = replaceWith_on_enter_keeps_original[OF nn ty P refl en acts rw d, of 1]
  have "outcome (traverse 2 astDefinitionsMap visitors_replace (ObjRef 2) (Some 1)
          (Some declaration_path) (Some ''declarations'') (Some 0) ast) = Some (Inr ())"
    by code_simp
  then obtain s' where
    "traverse 2 astDefinitionsMap visitors_replace (ObjRef 2) (Some 1)
       (Some declaration_path) (Some ''declarations'') (Some 0) ast = Some (Inr (), s')"
    by (auto simp: outcome_def)
  with inst show ?thesis
    by (simp add: numeral_2_eq_2) blast
qed

text \<open>
  C4 as the specification states it: after \<^verbatim>\<open>remove()\<close> in a node's enter hook the engine
  does not descend into the node's children and does not fire its exit hook. The code does
  both: on \<^verbatim>\<open>const a = 1;\<close>, with an enter hook that removes the declarator (object 2),
  the field of the parent is \<open>null\<close> after the walk, and the walk still entered and left
  objects 3 and 4, the children of the removed node, and then passed the exit of object 2,
  where the exit hook registered for its type was called.
\<close>

theorem remove_on_enter_counterexample:
  "outcome (walk 5 astDefinitionsMap visitors_remove (ObjRef 0) ast) = Some (Inr ()) \<and>
   final_object (walk 5 astDefinitionsMap visitors_remove (ObjRef 0) ast) 1
     = Some [(''type'', Str ''VariableDeclaration''), (''declarations'', Null),
             (''kind'', Str ''const'')] \<and>
   final_visits (walk 5 astDefinitionsMap visitors_remove (ObjRef 0) ast)
     = Some [(Enter, ObjRef 0), (Enter, ObjRef 1), (Enter, ObjRef 2), (Enter, ObjRef 3),
             (Exit, ObjRef 3), (Enter, ObjRef 4), (Exit, ObjRef 4), (Exit, ObjRef 2),
             (Exit, ObjRef 1), (Exit, ObjRef 0)] \<and>
   exit (visitorFuncs visitors_remove (Str ''VariableDeclarator'')) = Some no_op"
proof -
  have "outcome (walk 5 astDefinitionsMap visitors_remove (ObjRef 0) ast) = Some (Inr ()) \<and>
   final_object (walk 5 astDefinitionsMap visitors_remove (ObjRef 0) ast) 1
     = Some [(''type'', Str ''VariableDeclaration''), (''declarations'', Null),
             (''kind'', Str ''const'')] \<and>
   final_visits (walk 5 astDefinitionsMap visitors_remove (ObjRef 0) ast)
     = Some [(Enter, ObjRef 0), (Enter, ObjRef 1), (Enter, ObjRef 2), (Enter, ObjRef 3),
             (Exit, ObjRef 3), (Enter, ObjRef 4), (Exit, ObjRef 4), (Exit, ObjRef 2),
             (Exit, ObjRef 1), (Exit, ObjRef 0)]"
    by code_simp
  moreover have "exit (visitorFuncs visitors_remove (Str ''VariableDeclarator'')) = Some no_op"
    by (simp add: visitorFuncs_def visitors_remove_def object_literal_def property_name_def)
  ultimately show ?thesis by blast
qed

text \<open>
  C4, amended: when the enter hook of a node calls \<^verbatim>\<open>remove()\<close> and returns (in
  state \<open>s2\<close>), the engine still goes through the child fields of that node, in the order of its schema
  entry, and then still fires the exit hook registered for the node's type, with the path
  of the node; an activation that returns has the node's exit as its last event, after every
  event of the activations below it.
\<close>

theorem remove_on_enter_still_descends:
  assumes "nd \<noteq> Undefined" "nd \<noteq> Null"
    and "ty = member s nd ''type''"
    and "P = NodePath nd par pp k lk"
    and "s1 = s\<lparr>trace := trace s @ [Event Enter ty P]\<rparr>"
    and "enter (visitorFuncs vis ty) = Some h"
    and "Remove \<in> set (h P (store.truncate s))"
    and "perform P (h P (store.truncate s)) s1 = Some (Inr (), s2)"
    and "lookup_definition defs ty = Some d"
  shows "traverse (Suc n) defs vis nd par pp k lk s =
           andThen (forEach_list (visit_field (traverse n defs vis) nd P) (child_fields d) s2)
             (fire Exit (exit (visitorFuncs vis ty)) ty P) \<and>
         (\<forall>s'. traverse (Suc n) defs vis nd par pp k lk s = Some (Inr (), s') \<longrightarrow>
            (\<exists>evs. trace s' = trace s @ Event Enter ty P # evs @ [Event Exit ty P] \<and>
                   (\<forall>e \<in> set evs. within P e)))"
proof -
  have "fire Enter (enter (visitorFuncs vis ty)) ty P s = Some (Inr (), s2)"
    using assms(5,6,8) by (simp add: fire_hook)
  from traverse_after_enter[OF assms(1,2,3,4) this assms(9)]
  show ?thesis
    using traverse_returns_shape[of n defs vis nd par pp k lk s] assms(3,4) by auto
qed

theorem remove_on_enter_still_descends_witness:
  "traverse 2 astDefinitionsMap visitors_remove (ObjRef 2) (Some 1) (Some declaration_path)
       (Some ''declarations'') (Some 0) ast
     = andThen
         (forEach_list
            (visit_field (traverse 1 astDefinitionsMap visitors_remove) (ObjRef 2) declarator_path)
            (child_fields \<lparr>visitor = Some [''id'', ''init'']\<rparr>)
            (set_prop 1 ''declarations'' Null
               (ast\<lparr>trace := trace ast @ [Event Enter (Str ''VariableDeclarator'') declarator_path]\<rparr>)))
         (fire Exit (exit (visitorFuncs visitors_remove (Str ''VariableDeclarator'')))
            (Str ''VariableDeclarator'') declarator_path) \<and>
   (\<exists>s' evs. traverse 2 astDefinitionsMap visitors_remove (ObjRef 2) (Some 1)
                (Some declaration_path) (Some ''declarations'') (Some 0) ast = Some (Inr (), s') \<and>
      trace s' = trace ast @ Event Enter (Str ''VariableDeclarator'') declarator_path # evs
                   @ [Event Exit (Str ''VariableDeclarator'') declarator_path])"
proof -
  let ?s1 = "ast\<lparr>trace := trace ast @ [Event Enter (Str ''VariableDeclarator'') declarator_path]\<rparr>"
  have nn: "ObjRef 2 \<noteq> Undefined" "ObjRef 2 \<noteq> Null" by simp_all
  have ty: "Str ''VariableDeclarator'' = member ast (ObjRef 2) ''type''"
    by (simp add: member_def get_prop_def ast_def empty_store_def)
  have P: "declarator_path
             = NodePath (ObjRef 2) (Some 1) (Some declaration_path) (Some ''declarations'') (Some 0)"
    by (simp add: declarator_path_def)
  have en: "enter (visitorFuncs visitors_remove (Str ''VariableDeclarator'')) = Some remove_hook"
    by (simp add: visitorFuncs_def visitors_remove_def object_literal_def property_name_def)
  have acts: "Remove \<in> set (remove_hook declarator_path (store.truncate ast))"
    by (simp add: remove_hook_def)
  have rm: "perform declarator_path (remove_hook declarator_path (store.truncate ast)) ?s1
              = Some (Inr (), set_prop 1 ''declarations'' Null ?s1)"
    by (simp add: remove_hook_def remove_def write_slot_def declarator_path_def truthy_def
        key_name_def return_def)
  have d: "lookup_definition astDefinitionsMap (Str ''VariableDeclarator'')
             = Some \<lparr>visitor = Some [''id'', ''init'']\<rparr>"
    by (simp add: lookup_definition_def astDefinitionsMap_def)
  note inst = remove_on_enter_still_descends[OF nn ty P refl en acts rm d, of 1]
  have "outcome (traverse 2 astDefinitionsMap visitors_remove (ObjRef 2) (Some 1)
          (Some declaration_path) (Some ''declarations'') (Some 0) ast) = Some (Inr ())"
    by code_simp
  then obtain s' where
    "traverse 2 astDefinitionsMap visitors_remove (ObjRef 2) (Some 1)
       (Some declaration_path) (Some ''declarations'') (Some 0) ast = Some (Inr (), s')"
    by (auto simp: outcome_def)
  with inst show ?thesis
    by (simp add: numeral_2_eq_2) blast
qed

section \<open>A node whose type has no schema entry\<close>









section \<open>The order of enter, children and exit\<close>

subsection \<open>Every call of traverse keeps the order\<close>





subsection \<open>The order leaves the walk no choice\<close>









section \<open>The walk with an empty visitor map\<close>

text \<open>Loops whose callback only appends to the trace.\<close>

lemma forEach_from_pure:
  assumes "\<And>i t. j \<le> i \<Longrightarrow> i < length (arrays s a) \<Longrightarrow>
             f (arrays s a ! i) i (s\<lparr>trace := t\<rparr>) = return (s\<lparr>trace := t @ g i (arrays s a ! i)\<rparr>)"
  shows "forEach_from f a j m (s\<lparr>trace := t\<rparr>) =
         return (s\<lparr>trace := t @ concat (map (\<lambda>(i, c). g i c) (enumerate j (take m (drop j (arrays s a)))))\<rparr>)"
  using assms
proof (induction m arbitrary: j t)
  case 0
  show ?case by simp
next
  case (Suc m)
  show ?case
  proof (cases "j < length (arrays s a)")
    case False
    then show ?thesis using Suc.IH[of "Suc j" t] Suc.prems by simp
  next
    case True
    have d: "drop j (arrays s a) = arrays s a ! j # drop (Suc j) (arrays s a)"
      using True by (simp add: Cons_nth_drop_Suc)
    have "forEach_from f a (Suc j) m (s\<lparr>trace := t @ g j (arrays s a ! j)\<rparr>) =
        return (s\<lparr>trace := (t @ g j (arrays s a ! j)) @
           concat (map (\<lambda>(i, c). g i c) (enumerate (Suc j) (take m (drop (Suc j) (arrays s a)))))\<rparr>)"
      by (rule Suc.IH) (use Suc.prems in auto)
    with True Suc.prems[of j t] show ?thesis
      by (simp add: d return_def)
  qed
qed

lemma forEach_list_pure:
  assumes "\<And>x t. x \<in> set xs \<Longrightarrow> f x (s\<lparr>trace := t\<rparr>) = return (s\<lparr>trace := t @ g x\<rparr>)"
  shows "forEach_list f xs (s\<lparr>trace := t\<rparr>) = return (s\<lparr>trace := t @ concat (map g xs)\<rparr>)"
  using assms
proof (induction xs arbitrary: t)
  case Nil
  show ?case by simp
next
  case (Cons x xs)
  have "forEach_list f xs (s\<lparr>trace := t @ g x\<rparr>) = return (s\<lparr>trace := (t @ g x) @ concat (map g xs)\<rparr>)"
    by (rule Cons.IH) (use Cons.prems in auto)
  with Cons.prems[of x t] show ?case by (simp add: return_def)
qed

lemma known_tag:
  assumes "lookup_definition defs ty = Some d"
  shows "property_name ty \<in> dom defs"
  using assms by (cases ty) (auto simp: lookup_definition_def property_name_def)

lemma traverse_no_visitors:
  assumes none: "\<And>name. name \<in> dom defs \<Longrightarrow> vis name = None"
  shows "conforms n defs s nd \<Longrightarrow>
   traverse n defs vis nd par pp k lk (s\<lparr>trace := t\<rparr>)
     = return (s\<lparr>trace := t @ tour n defs s nd par pp k lk\<rparr>)"
proof (induction n arbitrary: nd par pp k lk t)
  case 0
  then show ?case by simp
next
  case (Suc n)
  from Suc.prems obtain a d where
    nd: "nd = ObjRef a" and d: "lookup_definition defs (get_prop s a ''type'') = Some d" and
    kids: "\<forall>f \<in> set (child_fields d).
             (case get_prop s a f of
                ArrRef r \<Rightarrow> (\<forall>c \<in> set (arrays s r). conforms n defs s c)
              | c \<Rightarrow> conforms n defs s c)"
    by (auto split: val.splits option.splits)
  let ?ty = "member s nd ''type''"
  let ?P = "NodePath nd par pp k lk"
  let ?g = "\<lambda>f. case member s nd f of
                 ArrRef r \<Rightarrow> concat (map (\<lambda>(i, c). tour n defs s c (as_parent nd) (Some ?P) (Some f) (Some i))
                                         (enumerate 0 (arrays s r)))
               | c \<Rightarrow> tour n defs s c (as_parent nd) (Some ?P) (Some f) None"
  have d': "lookup_definition defs ?ty = Some d" using d nd by (simp add: member_def)
  have vf: "visitorFuncs vis ?ty = Hooks None None"
    by (rule visitorFuncs_no_entry) (rule none[OF known_tag[OF d']])
  have field: "visit_field (traverse n defs vis) nd ?P f (s\<lparr>trace := u\<rparr>)
                 = return (s\<lparr>trace := u @ ?g f\<rparr>)" if f: "f \<in> set (child_fields d)" for f u
  proof (cases "member s nd f")
    case (ArrRef r)
    with kids f nd have all: "\<forall>c \<in> set (arrays s r). conforms n defs s c"
      by (auto simp: member_def)
    have "forEach_from (\<lambda>c i. traverse n defs vis c (as_parent nd) (Some ?P) (Some f) (Some i))
            r 0 (length (arrays s r)) (s\<lparr>trace := u\<rparr>)
          = return (s\<lparr>trace := u @ concat (map (\<lambda>(i, c). tour n defs s c (as_parent nd) (Some ?P) (Some f) (Some i))
               (enumerate 0 (take (length (arrays s r)) (drop 0 (arrays s r)))))\<rparr>)"
      by (rule forEach_from_pure) (use all in \<open>auto intro: Suc.IH\<close>)
    with ArrRef show ?thesis
      by (simp add: visit_field_def forEach_array_def)
  next
    case Undefined
    with kids f nd have "conforms n defs s Undefined" by (auto simp: member_def)
    with Undefined show ?thesis by (simp add: visit_field_def Suc.IH)
  next
    case Null
    with kids f nd have "conforms n defs s Null" by (auto simp: member_def)
    with Null show ?thesis by (simp add: visit_field_def Suc.IH)
  next
    case (Num i)
    with kids f nd have "conforms n defs s (Num i)" by (auto simp: member_def)
    with Num show ?thesis by (simp add: visit_field_def Suc.IH)
  next
    case (Str x)
    with kids f nd have "conforms n defs s (Str x)" by (auto simp: member_def)
    with Str show ?thesis by (simp add: visit_field_def Suc.IH)
  next
    case (ObjRef b)
    with kids f nd have "conforms n defs s (ObjRef b)" by (auto simp: member_def)
    with ObjRef show ?thesis by (simp add: visit_field_def Suc.IH)
  qed
  have loop: "forEach_list (visit_field (traverse n defs vis) nd ?P) (child_fields d) (s\<lparr>trace := u\<rparr>)
          = return (s\<lparr>trace := u @ concat (map ?g (child_fields d))\<rparr>)" for u
    by (rule forEach_list_pure) (rule field)
  have nn: "nd \<noteq> Undefined" "nd \<noteq> Null" using nd by auto
  show ?case
    unfolding traverse_Suc[OF nn]
    by (simp add: d' vf fire_no_hook return_def loop)
qed

lemma node_visitorFuncs_no_entry:
  "vis (property_name ty) = None \<Longrightarrow> node_visitorFuncs vis ty = NodeHooks None None"
  by (simp add: node_visitorFuncs_def)

lemma fire_node_no_hook:
  "fire_node ph None ty nd s
     = return (s\<lparr>trace := trace s @ [Event ph ty (NodePath nd None None None None)]\<rparr>)"
  by (simp add: fire_node_def Let_def)

lemma traverse_nodes_no_visitors:
  assumes none: "\<And>name. name \<in> dom defs \<Longrightarrow> vis name = None"
  shows "conforms n defs s nd \<Longrightarrow>
   traverse_nodes n defs vis nd (s\<lparr>trace := t\<rparr>)
     = return (s\<lparr>trace := t @ map bare (tour n defs s nd par pp k lk)\<rparr>)"
proof (induction n arbitrary: nd par pp k lk t)
  case 0
  then show ?case by simp
next
  case (Suc n)
  from Suc.prems obtain a d where
    nd: "nd = ObjRef a" and d: "lookup_definition defs (get_prop s a ''type'') = Some d" and
    kids: "\<forall>f \<in> set (child_fields d).
             (case get_prop s a f of
                ArrRef r \<Rightarrow> (\<forall>c \<in> set (arrays s r). conforms n defs s c)
              | c \<Rightarrow> conforms n defs s c)"
    by (auto split: val.splits option.splits)
  let ?ty = "member s nd ''type''"
  let ?P = "NodePath nd par pp k lk"
  let ?g = "\<lambda>f. case member s nd f of
                 ArrRef r \<Rightarrow> concat (map (\<lambda>(i, c). map bare (tour n defs s c (as_parent nd) (Some ?P) (Some f) (Some i)))
                                         (enumerate 0 (arrays s r)))
               | c \<Rightarrow> map bare (tour n defs s c (as_parent nd) (Some ?P) (Some f) None)"
  have d': "lookup_definition defs ?ty = Some d" using d nd by (simp add: member_def)
  have vf: "node_visitorFuncs vis ?ty = NodeHooks None None"
    by (rule node_visitorFuncs_no_entry) (rule none[OF known_tag[OF d']])
  have field: "visit_node_field (traverse_nodes n defs vis) nd f (s\<lparr>trace := u\<rparr>)
                 = return (s\<lparr>trace := u @ ?g f\<rparr>)" if f: "f \<in> set (child_fields d)" for f u
  proof (cases "member s nd f")
    case (ArrRef r)
    with kids f nd have all: "\<forall>c \<in> set (arrays s r). conforms n defs s c"
      by (auto simp: member_def)
    have "forEach_from (\<lambda>c i. traverse_nodes n defs vis c)
            r 0 (length (arrays s r)) (s\<lparr>trace := u\<rparr>)
          = return (s\<lparr>trace := u @ concat (map (\<lambda>(i, c). map bare (tour n defs s c (as_parent nd) (Some ?P) (Some f) (Some i)))
               (enumerate 0 (take (length (arrays s r)) (drop 0 (arrays s r)))))\<rparr>)"
      by (rule forEach_from_pure) (use all in \<open>auto intro: Suc.IH\<close>)
    with ArrRef show ?thesis
      by (simp add: visit_node_field_def forEach_array_def)
  next
    case Undefined
    with kids f nd have "conforms n defs s Undefined" by (auto simp: member_def)
    with Undefined show ?thesis by (simp add: visit_node_field_def Suc.IH)
  next
    case Null
    with kids f nd have "conforms n defs s Null" by (auto simp: member_def)
    with Null show ?thesis by (simp add: visit_node_field_def Suc.IH)
  next
    case (Num i)
    with kids f nd have "conforms n defs s (Num i)" by (auto simp: member_def)
    with Num show ?thesis by (simp add: visit_node_field_def Suc.IH)
  next
    case (Str x)
    with kids f nd have "conforms n defs s (Str x)" by (auto simp: member_def)
    with Str show ?thesis by (simp add: visit_node_field_def Suc.IH)
  next
    case (ObjRef b)
    with kids f nd have "conforms n defs s (ObjRef b)" by (auto simp: member_def)
    with ObjRef show ?thesis by (simp add: visit_node_field_def Suc.IH)
  qed
  have loop: "forEach_list (visit_node_field (traverse_nodes n defs vis) nd) (child_fields d)
            (s\<lparr>trace := u\<rparr>)
          = return (s\<lparr>trace := u @ concat (map ?g (child_fields d))\<rparr>)" for u
    by (rule forEach_list_pure) (rule field)
  have nn: "nd \<noteq> Undefined" "nd \<noteq> Null" using nd by auto
  have g: "map bare (case member s nd f of
                       ArrRef r \<Rightarrow> concat (map (\<lambda>(i, c). tour n defs s c (as_parent nd) (Some ?P) (Some f) (Some i))
                                               (enumerate 0 (arrays s r)))
                     | c \<Rightarrow> tour n defs s c (as_parent nd) (Some ?P) (Some f) None) = ?g f" for f
    by (cases "member s nd f") (simp_all add: map_concat comp_def case_prod_unfold)
  have gs: "map (\<lambda>f. map bare (case member s nd f of
                       ArrRef r \<Rightarrow> concat (map (\<lambda>(i, c). tour n defs s c (as_parent nd) (Some ?P) (Some f) (Some i))
                                               (enumerate 0 (arrays s r)))
                     | c \<Rightarrow> tour n defs s c (as_parent nd) (Some ?P) (Some f) None)) (child_fields d)
            = map ?g (child_fields d)"
    by (rule map_cong[OF refl]) (rule g)
  have tour_eq: "map bare (tour (Suc n) defs s nd par pp k lk)
      = Event Enter ?ty (NodePath nd None None None None) # concat (map ?g (child_fields d))
        @ [Event Exit ?ty (NodePath nd None None None None)]"
    using d' by (simp add: bare_def map_concat comp_def gs Let_def)
  have body: "(case visitor d of
                 None \<Rightarrow> return (s\<lparr>trace := u\<rparr>)
               | Some ks \<Rightarrow> forEach_list (visit_node_field (traverse_nodes n defs vis) nd) ks
                             (s\<lparr>trace := u\<rparr>))
              = return (s\<lparr>trace := u @ concat (map ?g (child_fields d))\<rparr>)" for u
    using loop[of u] by (cases "visitor d") (simp_all add: child_fields_def)
  have enter: "fire_node Enter None ?ty nd (s\<lparr>trace := t\<rparr>)
                 = Some (Inr (), s\<lparr>trace := t @ [Event Enter ?ty (NodePath nd None None None None)]\<rparr>)"
    by (simp add: fire_node_no_hook return_def)
  have unfold: "traverse_nodes (Suc n) defs vis nd (s\<lparr>trace := t\<rparr>)
      = andThen (return (s\<lparr>trace := t @ Event Enter ?ty (NodePath nd None None None None)
                                   # concat (map ?g (child_fields d))\<rparr>))
          (fire_node Exit None ?ty nd)"
    using nn by (simp add: d' vf enter body Let_def)
  show ?case
    unfolding tour_eq unfold by (simp add: return_def fire_node_no_hook)
qed

lemma entered_bare [simp]: "entered (map bare evs) = entered evs"
  by (induction evs) (auto simp: entered_def bare_def)

lemma exited_bare [simp]: "exited (map bare evs) = exited evs"
  by (induction evs) (auto simp: exited_def bare_def)

lemma entered_simps [simp]:
  "entered [] = []"
  "entered (Event Enter ty P # evs) = node P # entered evs"
  "entered (Event Exit ty P # evs) = entered evs"
  "entered (xs @ ys) = entered xs @ entered ys"
  by (simp_all add: entered_def)

lemma exited_simps [simp]:
  "exited [] = []"
  "exited (Event Enter ty P # evs) = exited evs"
  "exited (Event Exit ty P # evs) = node P # exited evs"
  "exited (xs @ ys) = exited xs @ exited ys"
  by (simp_all add: exited_def)

lemma entered_concat: "entered (concat xss) = concat (map entered xss)"
  by (induction xss) simp_all

lemma map_snd_of_enumerate: "map (\<lambda>x. h (snd x)) (enumerate j xs) = map h xs"
  by (induction xs arbitrary: j) simp_all

lemma entered_tour: "entered (tour n defs s v par pp k lk) = reachable n defs s v"
proof (induction n arbitrary: v par pp k lk)
  case 0
  show ?case by simp
next
  case (Suc n)
  show ?case
  proof (cases "lookup_definition defs (member s v ''type'')")
    case None
    then show ?thesis by simp
  next
    case (Some d)
    let ?P = "NodePath v par pp k lk"
    have "entered (case member s v f of
             ArrRef r \<Rightarrow> concat (map (\<lambda>(i, c). tour n defs s c (as_parent v) (Some ?P) (Some f) (Some i))
                                     (enumerate 0 (arrays s r)))
           | c \<Rightarrow> tour n defs s c (as_parent v) (Some ?P) (Some f) None)
          = (case member s v f of
               ArrRef r \<Rightarrow> concat (map (reachable n defs s) (arrays s r))
             | c \<Rightarrow> reachable n defs s c)" for f
    proof (cases "member s v f")
      case (ArrRef r)
      have "map (\<lambda>x. entered (case x of (i, c) \<Rightarrow>
                    tour n defs s c (as_parent v) (Some ?P) (Some f) (Some i))) (enumerate 0 (arrays s r))
            = map (\<lambda>x. reachable n defs s (snd x)) (enumerate 0 (arrays s r))"
        by (rule map_cong) (auto simp: Suc.IH)
      also have "\<dots> = map (reachable n defs s) (arrays s r)"
        by (rule map_snd_of_enumerate)
      finally show ?thesis using ArrRef
        by (simp add: entered_concat comp_def)
    qed (simp_all add: Suc.IH)
    then show ?thesis using Some
      by (simp add: entered_concat comp_def)
  qed
qed

lemma count_concat_eq:
  assumes "\<And>ys. ys \<in> set xss \<Longrightarrow> count_list (exited ys) x = count_list (entered ys) x"
  shows "count_list (exited (concat xss)) x = count_list (entered (concat xss)) x"
  using assms by (induction xss) simp_all

lemma exited_tour_count:
  "count_list (exited (tour n defs s v par pp k lk)) x
     = count_list (entered (tour n defs s v par pp k lk)) x"
proof (induction n arbitrary: v par pp k lk)
  case 0
  show ?case by simp
next
  case (Suc n)
  show ?case
  proof (cases "lookup_definition defs (member s v ''type'')")
    case None
    then show ?thesis by simp
  next
    case (Some d)
    let ?P = "NodePath v par pp k lk"
    let ?g = "\<lambda>f. case member s v f of
             ArrRef r \<Rightarrow> concat (map (\<lambda>(i, c). tour n defs s c (as_parent v) (Some ?P) (Some f) (Some i))
                                     (enumerate 0 (arrays s r)))
           | c \<Rightarrow> tour n defs s c (as_parent v) (Some ?P) (Some f) None"
    have one: "count_list (exited (?g f)) x = count_list (entered (?g f)) x" for f
    proof (cases "member s v f")
      case (ArrRef r)
      have "count_list (exited (concat (map (\<lambda>(i, c). tour n defs s c (as_parent v) (Some ?P) (Some f) (Some i))
                                     (enumerate 0 (arrays s r))))) x
          = count_list (entered (concat (map (\<lambda>(i, c). tour n defs s c (as_parent v) (Some ?P) (Some f) (Some i))
                                     (enumerate 0 (arrays s r))))) x"
        by (rule count_concat_eq) (auto simp: Suc.IH)
      with ArrRef show ?thesis by simp
    qed (simp_all add: Suc.IH)
    have "count_list (exited (concat (map ?g (child_fields d)))) x
          = count_list (entered (concat (map ?g (child_fields d)))) x"
      by (rule count_concat_eq) (auto simp: one)
    with Some show ?thesis by simp
  qed
qed

lemma count_list_distinct: "distinct xs \<Longrightarrow> x \<in> set xs \<Longrightarrow> count_list xs x = 1"
  by (induction xs) auto

lemma no_visitors_none: "Object_prototype name = None \<Longrightarrow> no_visitors name = None"
  by (simp add: no_visitors_def object_literal_def)

lemma no_node_visitors_none: "Object_prototype name = None \<Longrightarrow> no_node_visitors name = None"
  by (simp add: no_node_visitors_def node_object_literal_def)

text \<open>
  C7 as the specification states it: on every tree, with an empty visitor map, the walk
  visits each node reachable through the schema once on enter and once on exit, changes
  nothing and ends without error. The code does not on the parse of \<^verbatim>\<open>var a;\<close>: the
  nodes of the schema closure are the program, the declaration, the declarator and the
  identifier, each with a schema entry, but the declarator's \<^verbatim>\<open>init\<close> is \<open>null\<close>,
  and \<open>traverse\<close> calls itself on whatever a schema field holds. The walk throws on
  reading \<^verbatim>\<open>null.type\<close>; the program, the declaration and the declarator are entered
  and never left. The earlier traversal does the same.
\<close>

theorem null_child_counterexample:
  "reachable 5 astDefinitionsMap ast_var (ObjRef 0) = [ObjRef 0, ObjRef 1, ObjRef 2, ObjRef 3] \<and>
   outcome (walk 5 astDefinitionsMap no_visitors (ObjRef 0) ast_var)
     = Some (Inl (TypeError ''Cannot read properties of null (reading type)'')) \<and>
   final_visits (walk 5 astDefinitionsMap no_visitors (ObjRef 0) ast_var)
     = Some [(Enter, ObjRef 0), (Enter, ObjRef 1), (Enter, ObjRef 2), (Enter, ObjRef 3),
             (Exit, ObjRef 3)] \<and>
   outcome (traverse_nodes 5 astDefinitionsMap no_node_visitors (ObjRef 0) ast_var)
     = Some (Inl (TypeError ''Cannot read properties of null (reading type)'')) \<and>
   final_visits (traverse_nodes 5 astDefinitionsMap no_node_visitors (ObjRef 0) ast_var)
     = Some [(Enter, ObjRef 0), (Enter, ObjRef 1), (Enter, ObjRef 2), (Enter, ObjRef 3),
             (Exit, ObjRef 3)]"
  by code_simp

text \<open>
  C7, amended: on a tree that keeps the schema contract (every node reachable through the
  schema is an object whose type has a schema entry, and every field its entry names holds
  such a node or an array of such nodes, never \<open>null\<close>, nothing absent), with a schema
  none of whose type names is a property that the empty object literal inherits, the walk
  with the empty visitor map returns without error, leaves the store as it was, and passes
  the enter point and the exit point of each reachable node once. The trace grows by the
  events of the depth-first tour; the nodes entered are the nodes of the schema closure, in
  pre-order, each node exits as often as it occurs in the closure, and when no node occurs
  twice there (a tree), each node is entered exactly once and exited exactly once. The
  earlier traversal, which has no paths, does the same: it returns without error, leaves
  the store as it was, and its events are those of the same tour with each path reduced to
  its node, so the nodes it enters and the nodes it exits are the same ones in the same
  order.
\<close>

theorem empty_visitor_walk:
  assumes "conforms n defs s root" and "\<forall>name \<in> dom defs. Object_prototype name = None"
  shows "walk n defs no_visitors root s
           = Some (Inr (), s\<lparr>trace := trace s @ tour n defs s root None None None None\<rparr>) \<and>
         entered (tour n defs s root None None None None) = reachable n defs s root \<and>
         (\<forall>x. count_list (exited (tour n defs s root None None None None)) x
               = count_list (reachable n defs s root) x) \<and>
         (distinct (reachable n defs s root) \<longrightarrow>
            (\<forall>x \<in> set (reachable n defs s root).
               count_list (entered (tour n defs s root None None None None)) x = 1 \<and>
               count_list (exited (tour n defs s root None None None None)) x = 1)) \<and>
         traverse_nodes n defs no_node_visitors root s
           = Some (Inr (), s\<lparr>trace := trace s @ map bare (tour n defs s root None None None None)\<rparr>) \<and>
         entered (map bare (tour n defs s root None None None None))
           = entered (tour n defs s root None None None None) \<and>
         exited (map bare (tour n defs s root None None None None))
           = exited (tour n defs s root None None None None)"
proof -
  have "walk n defs no_visitors root (s\<lparr>trace := trace s\<rparr>)
           = return (s\<lparr>trace := trace s @ tour n defs s root None None None None\<rparr>)"
    unfolding walk_def
    by (rule traverse_no_visitors[OF _ assms(1)]) (use assms(2) in \<open>auto intro: no_visitors_none\<close>)
  moreover have "traverse_nodes n defs no_node_visitors root (s\<lparr>trace := trace s\<rparr>)
           = return (s\<lparr>trace := trace s @ map bare (tour n defs s root None None None None)\<rparr>)"
    by (rule traverse_nodes_no_visitors[OF _ assms(1)])
       (use assms(2) in \<open>auto intro: no_node_visitors_none\<close>)
  ultimately show ?thesis
    by (simp add: return_def entered_tour exited_tour_count count_list_distinct)
qed

theorem empty_visitor_walk_witness:
  "conforms 5 astDefinitionsMap ast (ObjRef 0) \<and>
   walk 5 astDefinitionsMap no_visitors (ObjRef 0) ast
     = Some (Inr (), ast\<lparr>trace := trace ast @ tour 5 astDefinitionsMap ast (ObjRef 0) None None None None\<rparr>) \<and>
   entered (tour 5 astDefinitionsMap ast (ObjRef 0) None None None None)
     = [ObjRef 0, ObjRef 1, ObjRef 2, ObjRef 3, ObjRef 4] \<and>
   count_list (entered (tour 5 astDefinitionsMap ast (ObjRef 0) None None None None)) (ObjRef 3) = 1 \<and>
   count_list (exited (tour 5 astDefinitionsMap ast (ObjRef 0) None None None None)) (ObjRef 3) = 1 \<and>
   traverse_nodes 5 astDefinitionsMap no_node_visitors (ObjRef 0) ast
     = Some (Inr (), ast\<lparr>trace := trace ast @ map bare (tour 5 astDefinitionsMap ast (ObjRef 0) None None None None)\<rparr>)"
proof -
  have c: "conforms 5 astDefinitionsMap ast (ObjRef 0)"
    by code_simp
  have p: "\<forall>name \<in> dom astDefinitionsMap. Object_prototype name = None"
    by (simp add: astDefinitionsMap_def Object_prototype_def)
  have r: "reachable 5 astDefinitionsMap ast (ObjRef 0)
             = [ObjRef 0, ObjRef 1, ObjRef 2, ObjRef 3, ObjRef 4]"
    by code_simp
  from empty_visitor_walk[OF c p] c show ?thesis
    unfolding r by simp
qed

section \<open>Mutating through a path without a parent, or with a stale index\<close>

lemma replaceWith_no_parent:
  "parent this = None \<Longrightarrow>
   replaceWith this v s
     = Some (Inl (TypeError (if truthy (listKey this) then ''Cannot read properties of undefined''
                             else ''Cannot set properties of undefined'')), s)"
  by (simp add: replaceWith_def read_slot_def write_slot_def throw_def return_def)

lemma remove_no_parent:
  "parent this = None \<Longrightarrow>
   remove this s
     = Some (Inl (TypeError (if truthy (listKey this) then ''Cannot read properties of undefined''
                             else ''Cannot set properties of undefined'')), s)"
  by (simp add: remove_def read_slot_def write_slot_def throw_def return_def)

lemma splice_beyond_end:
  "length xs \<le> i \<Longrightarrow> splice i d items xs = xs @ items"
  by (simp add: splice_def Let_def)

lemma replaceWith_beyond_end:
  assumes "parent this = Some p" "get_prop s p (key_name (key this)) = ArrRef r"
    and "listKey this = Some i" "length (arrays s r) \<le> i"
  shows "\<exists>s'. replaceWith this v s = Some (Inr (), s') \<and>
              arrays s' r = (if i = 0 then arrays s r else arrays s r @ [v])"
  using assms
  by (simp add: replaceWith_def read_slot_def write_slot_def call_splice_def truthy_def
      to_index_def return_def set_prop_def splice_beyond_end)

lemma remove_beyond_end:
  assumes "parent this = Some p" "get_prop s p (key_name (key this)) = ArrRef r"
    and "listKey this = Some i" "length (arrays s r) \<le> i"
  shows "\<exists>s'. remove this s = Some (Inr (), s') \<and> arrays s' r = arrays s r"
  using assms
  by (simp add: remove_def read_slot_def write_slot_def call_splice_def truthy_def
      to_index_def return_def set_prop_def splice_beyond_end)

text \<open>
  C8 as the specification states it: \<^verbatim>\<open>remove()\<close> or \<^verbatim>\<open>replaceWith()\<close> on the root path,
  or a splice with an index out of range, fails with an error. The second half does not hold
  of the code: \<^verbatim>\<open>splice\<close> clamps its index and nothing checks it. With index 5 on the
  one-element body of scenario A, \<^verbatim>\<open>replaceWith\<close> returns normally, having appended the
  new node to the array, and \<^verbatim>\<open>remove\<close> returns normally, having spliced nothing.
\<close>

theorem out_of_range_splice_counterexample:
  "outcome (replaceWith stale_path (ObjRef 2) store_A) = Some (Inr ()) \<and>
   final_array (replaceWith stale_path (ObjRef 2) store_A) 0 = Some [ObjRef 1, ObjRef 2] \<and>
   outcome (remove stale_path store_A) = Some (Inr ()) \<and>
   final_array (remove stale_path store_A) 0 = Some [ObjRef 1]"
  by code_simp

text \<open>
  C8, amended: \<^verbatim>\<open>remove()\<close> or \<^verbatim>\<open>replaceWith()\<close> on a path without a parent (the root
  path) throws, a \<^verbatim>\<open>TypeError\<close> from the access to a property of \<open>undefined\<close>, and
  changes nothing; when the enter hook of the root begins with such a call, the walk ends at
  once with that error (the root path has no index, so it is the assignment that throws),
  which reaches its caller, the root's enter being the only event. An index out of range is
  not an error: on a path whose parent holds an array in the field of the path and whose
  index is at or beyond the length of that array, both methods return normally, whatever
  the index; \<^verbatim>\<open>replaceWith\<close> leaves the array with the new node appended to it (and as
  it was when the index is 0), \<^verbatim>\<open>remove\<close> leaves the array as it was.
\<close>

theorem mutation_without_parent_throws:
  "(parent this = None \<longrightarrow>
      (\<exists>msg. replaceWith this v s = Some (Inl (TypeError msg), s)) \<and>
      (\<exists>msg. remove this s = Some (Inl (TypeError msg), s))) \<and>
   (root \<noteq> Undefined \<and> root \<noteq> Null \<and>
    enter (visitorFuncs vis (member s0 root ''type'')) = Some h \<and>
    (\<exists>as. h (NodePath root None None None None) (store.truncate s0) = ReplaceWith v # as \<or>
          h (NodePath root None None None None) (store.truncate s0) = Remove # as)
    \<longrightarrow> walk (Suc n) defs vis root s0
          = Some (Inl (TypeError ''Cannot set properties of undefined''),
                  s0\<lparr>trace := trace s0 @
                    [Event Enter (member s0 root ''type'') (NodePath root None None None None)]\<rparr>)) \<and>
   (parent this = Some p \<and> get_prop s p (key_name (key this)) = ArrRef r \<and>
    listKey this = Some i \<and> length (arrays s r) \<le> i
    \<longrightarrow> (\<exists>s'. replaceWith this v s = Some (Inr (), s') \<and>
               arrays s' r = (if i = 0 then arrays s r else arrays s r @ [v])) \<and>
        (\<exists>s'. remove this s = Some (Inr (), s') \<and> arrays s' r = arrays s r))"
proof (intro conjI impI)
  assume "parent this = None"
  then show "\<exists>msg. replaceWith this v s = Some (Inl (TypeError msg), s)"
    by (auto dest: replaceWith_no_parent)
next
  assume "parent this = None"
  then show "\<exists>msg. remove this s = Some (Inl (TypeError msg), s)"
    by (auto dest: remove_no_parent)
next
  let ?ty = "member s0 root ''type''"
  let ?P = "NodePath root None None None None"
  let ?s1 = "s0\<lparr>trace := trace s0 @ [Event Enter ?ty ?P]\<rparr>"
  assume a: "root \<noteq> Undefined \<and> root \<noteq> Null \<and>
    enter (visitorFuncs vis ?ty) = Some h \<and>
    (\<exists>as. h ?P (store.truncate s0) = ReplaceWith v # as \<or> h ?P (store.truncate s0) = Remove # as)"
  then obtain a0 as where as: "h ?P (store.truncate s0) = a0 # as" "a0 = ReplaceWith v \<or> a0 = Remove"
    by auto
  have "act ?P a0 ?s1 = Some (Inl (TypeError ''Cannot set properties of undefined''), ?s1)"
    using as(2) by (auto simp: replaceWith_no_parent remove_no_parent truthy_def)
  then have "fire Enter (Some h) ?ty ?P s0
        = Some (Inl (TypeError ''Cannot set properties of undefined''), ?s1)"
    by (simp add: fire_hook as(1))
  with a show "walk (Suc n) defs vis root s0
        = Some (Inl (TypeError ''Cannot set properties of undefined''), ?s1)"
    unfolding walk_def by (simp add: traverse_Suc)
next
  assume "parent this = Some p \<and> get_prop s p (key_name (key this)) = ArrRef r \<and>
    listKey this = Some i \<and> length (arrays s r) \<le> i"
  then show "\<exists>s'. replaceWith this v s = Some (Inr (), s') \<and>
               arrays s' r = (if i = 0 then arrays s r else arrays s r @ [v])"
    by (intro replaceWith_beyond_end) auto
next
  assume "parent this = Some p \<and> get_prop s p (key_name (key this)) = ArrRef r \<and>
    listKey this = Some i \<and> length (arrays s r) \<le> i"
  then show "\<exists>s'. remove this s = Some (Inr (), s') \<and> arrays s' r = arrays s r"
    by (intro remove_beyond_end) auto
qed

theorem mutation_without_parent_throws_witness:
  "parent program_path = None \<and>
   (\<exists>msg. replaceWith program_path (ObjRef 5) ast = Some (Inl (TypeError msg), ast)) \<and>
   (\<exists>msg. remove program_path ast = Some (Inl (TypeError msg), ast)) \<and>
   walk 1 astDefinitionsMap visitors_root (ObjRef 0) ast
     = Some (Inl (TypeError ''Cannot set properties of undefined''),
             ast\<lparr>trace := trace ast @
               [Event Enter (member ast (ObjRef 0) ''type'') (NodePath (ObjRef 0) None None None None)]\<rparr>) \<and>
   length (arrays store_A 0) \<le> 5 \<and>
   (\<exists>s'. replaceWith stale_path (ObjRef 2) store_A = Some (Inr (), s') \<and>
         arrays s' 0 = [ObjRef 1, ObjRef 2]) \<and>
   (\<exists>s'. remove stale_path store_A = Some (Inr (), s') \<and> arrays s' 0 = [ObjRef 1])"
proof -
  have p: "parent program_path = None"
    by (simp add: program_path_def)
  have ty: "member ast (ObjRef 0) ''type'' = Str ''Program''"
    by (simp add: member_def get_prop_def ast_def empty_store_def)
  have h: "ObjRef 0 \<noteq> Undefined \<and> ObjRef 0 \<noteq> Null \<and>
    enter (visitorFuncs visitors_root (member ast (ObjRef 0) ''type'')) = Some remove_hook \<and>
    (\<exists>as. remove_hook (NodePath (ObjRef 0) None None None None) (store.truncate ast)
             = ReplaceWith (ObjRef 5) # as \<or>
          remove_hook (NodePath (ObjRef 0) None None None None) (store.truncate ast) = Remove # as)"
    by (simp add: ty visitorFuncs_def visitors_root_def object_literal_def property_name_def
        remove_hook_def)
  have arr: "arrays store_A 0 = [ObjRef 1]"
    by (simp add: store_A_def empty_store_def)
  have stale: "parent stale_path = Some 0 \<and>
    get_prop store_A 0 (key_name (key stale_path)) = ArrRef 0 \<and>
    listKey stale_path = Some 5 \<and> length (arrays store_A 0) \<le> 5"
    by (simp add: stale_path_def key_name_def get_prop_def store_A_def empty_store_def)
  from mutation_without_parent_throws[of program_path "ObjRef 5" ast "ObjRef 0" visitors_root ast
      remove_hook 0 astDefinitionsMap] p h
  have root: "(\<exists>msg. replaceWith program_path (ObjRef 5) ast = Some (Inl (TypeError msg), ast)) \<and>
   (\<exists>msg. remove program_path ast = Some (Inl (TypeError msg), ast)) \<and>
   walk 1 astDefinitionsMap visitors_root (ObjRef 0) ast
     = Some (Inl (TypeError ''Cannot set properties of undefined''),
             ast\<lparr>trace := trace ast @
               [Event Enter (member ast (ObjRef 0) ''type'') (NodePath (ObjRef 0) None None None None)]\<rparr>)"
    by simp
  from mutation_without_parent_throws[of stale_path "ObjRef 2" store_A "ObjRef 0" visitors_root ast
      remove_hook 0 astDefinitionsMap 0 0 5] stale
  have range: "(\<exists>s'. replaceWith stale_path (ObjRef 2) store_A = Some (Inr (), s') \<and>
         arrays s' 0 = [ObjRef 1, ObjRef 2]) \<and>
   (\<exists>s'. remove stale_path store_A = Some (Inr (), s') \<and> arrays s' 0 = [ObjRef 1])"
    by (simp add: arr)
  from p root stale range show ?thesis by blast
qed

section \<open>Stopping a walk\<close>




lemma hook_at_simps [simp]:
  "hook_at vis (Event Enter ty P) = enter (visitorFuncs vis ty)"
  "hook_at vis (Event Exit ty P) = exit (visitorFuncs vis ty)"
  by (simp_all add: hook_at_def)








section \<open>Determinism\<close>

subsection \<open>Similar stores\<close>

lemma similarD:
  assumes "similar f g s t"
  shows "inj f" "inj g" "objects t (f a) = ren_props f g (objects s a)"
    "arrays t (g r) = map (ren_val f g) (arrays s r)"
  using assms by (auto simp: similar_def)

lemma similar_trace [simp]:
  "similar f g (s\<lparr>trace := u\<rparr>) t = similar f g s t"
  "similar f g s (t\<lparr>trace := u\<rparr>) = similar f g s t"
  by (simp_all add: similar_def)

lemma similar_truncate: "similar f g s t \<Longrightarrow> similar f g (store.truncate s) (store.truncate t)"
  by (simp add: similar_def store.truncate_def)

lemma similar_stores:
  assumes "similar f g s0 t0"
    and "objects s = objects s0" "arrays s = arrays s0" "objects t = objects t0" "arrays t = arrays t0"
  shows "similar f g s t"
  using assms by (simp add: similar_def)

lemma map_of_ren_props: "map_of (ren_props f g ps) k = map_option (ren_val f g) (map_of ps k)"
  by (induction ps) (auto simp: ren_props_def)

lemma update_ren_props:
  "AList.update k (ren_val f g v) (ren_props f g ps) = ren_props f g (AList.update k v ps)"
  by (induction ps) (auto simp: ren_props_def)

lemma get_prop_similar:
  "similar f g s t \<Longrightarrow> get_prop t (f a) k = ren_val f g (get_prop s a k)"
  by (simp add: get_prop_def similarD(3) map_of_ren_props split: option.splits)

lemma member_similar:
  "similar f g s t \<Longrightarrow> member t (ren_val f g v) k = ren_val f g (member s v k)"
  by (cases v) (simp_all add: member_def get_prop_similar)

lemma set_prop_similar:
  assumes "similar f g s t"
  shows "similar f g (set_prop a k v s) (set_prop (f a) k (ren_val f g v) t)"
  unfolding similar_def set_prop_def
  using similarD[OF assms] by (auto simp: update_ren_props inj_eq)

lemma array_update_similar:
  assumes "similar f g s t"
  shows "similar f g (s\<lparr>arrays := (arrays s)(r := ys)\<rparr>)
           (t\<lparr>arrays := (arrays t)(g r := map (ren_val f g) ys)\<rparr>)"
  unfolding similar_def
  using similarD[OF assms] by (auto simp: inj_eq)

lemma splice_map: "map h (splice i d xs ys) = splice i d (map h xs) (map h ys)"
  by (simp add: splice_def Let_def take_map drop_map)

lemma ren_val_eq_simps [simp]:
  "ren_val f g v = Undefined \<longleftrightarrow> v = Undefined"
  "ren_val f g v = Null \<longleftrightarrow> v = Null"
  by (cases v; simp)+

lemma as_parent_ren: "as_parent (ren_val f g v) = map_option f (as_parent v)"
  by (cases v) (simp_all add: as_parent_def)

lemma lookup_definition_ren [simp]: "lookup_definition defs (ren_val f g v) = lookup_definition defs v"
  by (cases v) (simp_all add: lookup_definition_def)

lemma property_name_ren [simp]: "property_name (ren_val f g v) = property_name v"
  by (cases v) (simp_all add: property_name_def)

lemma invocations_ren [simp]: "invocations (map (ren_event f g) evs) = invocations evs"
  by (simp add: invocations_def ren_event_def comp_def)

subsection \<open>Corresponding computations\<close>

lemma simulatesI:
  assumes "\<And>s t r s'. similar f g s t \<Longrightarrow> c s = Some (r, s') \<Longrightarrow>
     \<exists>t' evs. c' t = Some (r, t') \<and> similar f g s' t' \<and>
        trace s' = trace s @ evs \<and> trace t' = trace t @ map (ren_event f g) evs"
  shows "simulates f g c c'"
  using assms unfolding simulates_def by blast

lemma simulatesD:
  assumes "simulates f g c c'" "similar f g s t" "c s = Some (r, s')"
  obtains t' evs where "c' t = Some (r, t')" "similar f g s' t'"
    "trace s' = trace s @ evs" "trace t' = trace t @ map (ren_event f g) evs"
  using assms unfolding simulates_def by blast

lemma sim_return: "simulates f g return return"
proof (rule simulatesI)
  fix s t :: state and r s'
  assume "similar f g s t" "return s = Some (r, s')"
  then show "\<exists>t' evs. return t = Some (r, t') \<and> similar f g s' t' \<and>
        trace s' = trace s @ evs \<and> trace t' = trace t @ map (ren_event f g) evs"
    by (intro exI[of _ t] exI[of _ "[]"]) (auto simp: return_def)
qed

lemma sim_throw: "simulates f g (throw e) (throw e)"
proof (rule simulatesI)
  fix s t :: state and r s'
  assume "similar f g s t" "throw e s = Some (r, s')"
  then show "\<exists>t' evs. throw e t = Some (r, t') \<and> similar f g s' t' \<and>
        trace s' = trace s @ evs \<and> trace t' = trace t @ map (ren_event f g) evs"
    by (intro exI[of _ t] exI[of _ "[]"]) (auto simp: throw_def)
qed

lemma sim_seq:
  assumes c: "simulates f g c c'" and d: "simulates f g d d'"
  shows "simulates f g (\<lambda>s. andThen (c s) d) (\<lambda>t. andThen (c' t) d')"
proof (rule simulatesI)
  fix s t :: state and r s'
  assume sim: "similar f g s t" and run: "andThen (c s) d = Some (r, s')"
  from run consider
    (err) e where "c s = Some (Inl e, s')" "r = Inl e"
    | (ok) s1 where "c s = Some (Inr (), s1)" "d s1 = Some (r, s')"
    unfolding andThen_some by blast
  then show "\<exists>t' evs. andThen (c' t) d' = Some (r, t') \<and> similar f g s' t' \<and>
        trace s' = trace s @ evs \<and> trace t' = trace t @ map (ren_event f g) evs"
  proof cases
    case err
    from simulatesD[OF c sim err(1)] obtain t' evs where
      "c' t = Some (Inl e, t')" "similar f g s' t'" "trace s' = trace s @ evs"
      "trace t' = trace t @ map (ren_event f g) evs"
      by blast
    with err(2) show ?thesis by auto
  next
    case ok
    from simulatesD[OF c sim ok(1)] obtain t1 e1 where
      1: "c' t = Some (Inr (), t1)" "similar f g s1 t1" "trace s1 = trace s @ e1"
         "trace t1 = trace t @ map (ren_event f g) e1"
      by blast
    from simulatesD[OF d 1(2) ok(2)] obtain t' e2 where
      2: "d' t1 = Some (r, t')" "similar f g s' t'" "trace s' = trace s1 @ e2"
         "trace t' = trace t1 @ map (ren_event f g) e2"
      by blast
    from 1 2 show ?thesis
      by (intro exI[of _ t'] exI[of _ "e1 @ e2"]) simp
  qed
qed

lemma sim_call_splice:
  "simulates f g (call_splice tg i d xs) (call_splice (ren_val f g tg) i d (map (ren_val f g) xs))"
proof (rule simulatesI)
  fix s t :: state and r s'
  assume sim: "similar f g s t" and run: "call_splice tg i d xs s = Some (r, s')"
  show "\<exists>t' evs. call_splice (ren_val f g tg) i d (map (ren_val f g) xs) t = Some (r, t') \<and>
        similar f g s' t' \<and> trace s' = trace s @ evs \<and>
        trace t' = trace t @ map (ren_event f g) evs"
  proof (cases tg)
    case (ArrRef a)
    let ?ys = "splice i d xs (arrays s a)"
    from run ArrRef have r: "r = Inr ()" "s' = s\<lparr>arrays := (arrays s)(a := ?ys)\<rparr>"
      by (simp_all add: call_splice_def return_def)
    have "splice i d (map (ren_val f g) xs) (arrays t (g a)) = map (ren_val f g) ?ys"
      by (simp add: similarD(4)[OF sim] splice_map)
    with ArrRef have "call_splice (ren_val f g tg) i d (map (ren_val f g) xs) t
        = Some (Inr (), t\<lparr>arrays := (arrays t)(g a := map (ren_val f g) ?ys)\<rparr>)"
      by (simp add: call_splice_def return_def)
    with r array_update_similar[OF sim, of a ?ys] show ?thesis
      by (intro exI[of _ "t\<lparr>arrays := (arrays t)(g a := map (ren_val f g) ?ys)\<rparr>"] exI[of _ "[]"])
         simp
  next
    case Undefined
    with run sim show ?thesis
      by (intro exI[of _ t] exI[of _ "[]"]) (auto simp: call_splice_def throw_def)
  next
    case Null
    with run sim show ?thesis
      by (intro exI[of _ t] exI[of _ "[]"]) (auto simp: call_splice_def throw_def)
  next
    case (Num x)
    with run sim show ?thesis
      by (intro exI[of _ t] exI[of _ "[]"]) (auto simp: call_splice_def throw_def)
  next
    case (Str x)
    with run sim show ?thesis
      by (intro exI[of _ t] exI[of _ "[]"]) (auto simp: call_splice_def throw_def)
  next
    case (ObjRef x)
    with run sim show ?thesis
      by (intro exI[of _ t] exI[of _ "[]"]) (auto simp: call_splice_def throw_def)
  qed
qed

lemma ren_path_sel [simp]:
  "node (ren_path f g P) = ren_val f g (node P)"
  "parent (ren_path f g P) = map_option f (parent P)"
  "parentPath (ren_path f g P) = map_option (ren_path f g) (parentPath P)"
  "key (ren_path f g P) = key P"
  "listKey (ren_path f g P) = listKey P"
  by (cases P; simp)+

lemma read_slot_similar:
  assumes "similar f g s t"
  shows "read_slot (ren_path f g P) t = map_sum id (ren_val f g) (read_slot P s)"
  by (cases "parent P") (simp_all add: read_slot_def get_prop_similar[OF assms])

lemma sim_write_slot:
  "simulates f g (write_slot P v) (write_slot (ren_path f g P) (ren_val f g v))"
proof (rule simulatesI)
  fix s t :: state and r s'
  assume sim: "similar f g s t" and run: "write_slot P v s = Some (r, s')"
  show "\<exists>t' evs. write_slot (ren_path f g P) (ren_val f g v) t = Some (r, t') \<and>
        similar f g s' t' \<and> trace s' = trace s @ evs \<and>
        trace t' = trace t @ map (ren_event f g) evs"
  proof (cases "parent P")
    case None
    with run sim show ?thesis
      by (intro exI[of _ t] exI[of _ "[]"]) (auto simp: write_slot_def throw_def)
  next
    case (Some p)
    with run have r: "r = Inr ()" "s' = set_prop p (key_name (key P)) v s"
      by (simp_all add: write_slot_def return_def)
    from Some have "write_slot (ren_path f g P) (ren_val f g v) t
        = Some (Inr (), set_prop (f p) (key_name (key P)) (ren_val f g v) t)"
      by (simp add: write_slot_def return_def)
    with r set_prop_similar[OF sim, of p "key_name (key P)" v] show ?thesis
      by (intro exI[of _ "set_prop (f p) (key_name (key P)) (ren_val f g v) t"] exI[of _ "[]"])
         (simp add: set_prop_def)
  qed
qed

lemma sim_splice_step:
  assumes items: "items' = map (ren_val f g) items"
  shows "simulates f g
     (\<lambda>s. if truthy (listKey P)
        then (case read_slot P s of
                Inl e \<Rightarrow> throw e s
              | Inr target \<Rightarrow> call_splice target (to_index (listKey P)) 1 items s)
        else return s)
     (\<lambda>t. if truthy (listKey (ren_path f g P))
        then (case read_slot (ren_path f g P) t of
                Inl e \<Rightarrow> throw e t
              | Inr target \<Rightarrow> call_splice target (to_index (listKey (ren_path f g P))) 1 items' t)
        else return t)"
proof (rule simulatesI)
  fix s t :: state and r s'
  assume sim: "similar f g s t"
    and run: "(if truthy (listKey P)
        then (case read_slot P s of
                Inl e \<Rightarrow> throw e s
              | Inr target \<Rightarrow> call_splice target (to_index (listKey P)) 1 items s)
        else return s) = Some (r, s')"
  let ?goal = "\<exists>t' evs. (if truthy (listKey (ren_path f g P))
        then (case read_slot (ren_path f g P) t of
                Inl e \<Rightarrow> throw e t
              | Inr target \<Rightarrow> call_splice target (to_index (listKey (ren_path f g P))) 1 items' t)
        else return t) = Some (r, t') \<and>
        similar f g s' t' \<and> trace s' = trace s @ evs \<and>
        trace t' = trace t @ map (ren_event f g) evs"
  show ?goal
  proof (cases "truthy (listKey P)")
    case False
    with run sim show ?thesis
      by (intro exI[of _ t] exI[of _ "[]"]) (auto simp: return_def)
  next
    case True
    show ?thesis
    proof (cases "read_slot P s")
      case (Inl e)
      with run True sim read_slot_similar[OF sim, of P] show ?thesis
        by (intro exI[of _ t] exI[of _ "[]"]) (auto simp: throw_def)
    next
      case (Inr target)
      with run True have "call_splice target (to_index (listKey P)) 1 items s = Some (r, s')"
        by simp
      from simulatesD[OF sim_call_splice sim this] obtain t' evs where
        "call_splice (ren_val f g target) (to_index (listKey P)) 1 (map (ren_val f g) items) t
           = Some (r, t')"
        "similar f g s' t'" "trace s' = trace s @ evs" "trace t' = trace t @ map (ren_event f g) evs"
        by blast
      with True Inr read_slot_similar[OF sim, of P] items show ?thesis
        by (intro exI[of _ t'] exI[of _ evs]) simp
    qed
  qed
qed

lemma sim_replaceWith:
  "simulates f g (replaceWith P v) (replaceWith (ren_path f g P) (ren_val f g v))"
  unfolding replaceWith_def[abs_def]
  by (rule sim_seq[OF sim_splice_step sim_write_slot]) simp

lemma sim_remove: "simulates f g (remove P) (remove (ren_path f g P))"
proof -
  have "simulates f g (remove P)
          (\<lambda>t. andThen
             (if truthy (listKey (ren_path f g P))
              then (case read_slot (ren_path f g P) t of
                      Inl e \<Rightarrow> throw e t
                    | Inr target \<Rightarrow> call_splice target (to_index (listKey (ren_path f g P))) 1 [] t)
              else return t)
             (write_slot (ren_path f g P) (ren_val f g Null)))"
    unfolding remove_def[abs_def]
    by (rule sim_seq[OF sim_splice_step sim_write_slot]) simp
  then show ?thesis
    by (simp add: remove_def[abs_def])
qed

lemma sim_act:
  assumes "rel_action f g a b"
  shows "simulates f g (act P a) (act (ren_path f g P) b)"
proof (cases a)
  case (ReplaceWith v)
  with assms have b: "b = ReplaceWith (ren_val f g v)" by simp
  have "act P a = replaceWith P v" "act (ren_path f g P) b = replaceWith (ren_path f g P) (ren_val f g v)"
    using ReplaceWith b by (auto simp: fun_eq_iff)
  then show ?thesis by (simp add: sim_replaceWith)
next
  case Remove
  with assms have b: "b = Remove" by simp
  have "act P a = remove P" "act (ren_path f g P) b = remove (ren_path f g P)"
    using Remove b by (auto simp: fun_eq_iff)
  then show ?thesis by (simp add: sim_remove)
next
  case Stop
  with assms have b: "b = Stop" by simp
  have "act P a = throw (TypeError ''path.stop is not a function'')"
    "act (ren_path f g P) b = throw (TypeError ''path.stop is not a function'')"
    using Stop b by (auto simp: fun_eq_iff)
  then show ?thesis by (simp add: sim_throw)
next
  case (Throw e)
  with assms have b: "b = Throw e" by simp
  have "act P a = throw e" "act (ren_path f g P) b = throw e"
    using Throw b by (auto simp: fun_eq_iff)
  then show ?thesis by (simp add: sim_throw)
next
  case (Mutate m)
  with assms obtain m' where b: "b = Mutate m'" and
    keep: "\<And>s t. similar f g s t \<Longrightarrow> similar f g (m s) (m' t)"
    by auto
  show ?thesis
  proof (rule simulatesI)
    fix s t :: state and r s'
    assume sim: "similar f g s t" and run: "act P a s = Some (r, s')"
    let ?t' = "t\<lparr>objects := objects (m' (store.truncate t)), arrays := arrays (m' (store.truncate t))\<rparr>"
    from run Mutate have r: "r = Inr ()"
      "s' = s\<lparr>objects := objects (m (store.truncate s)), arrays := arrays (m (store.truncate s))\<rparr>"
      by (simp_all add: return_def)
    have "similar f g (m (store.truncate s)) (m' (store.truncate t))"
      by (rule keep[OF similar_truncate[OF sim]])
    then have "similar f g s' ?t'"
      by (rule similar_stores) (simp_all add: r)
    with r b show "\<exists>t' evs. act (ren_path f g P) b t = Some (r, t') \<and> similar f g s' t' \<and>
        trace s' = trace s @ evs \<and> trace t' = trace t @ map (ren_event f g) evs"
      by (intro exI[of _ ?t'] exI[of _ "[]"]) (simp add: return_def)
  qed
qed

lemma sim_perform:
  "list_all2 (rel_action f g) as bs \<Longrightarrow>
   simulates f g (perform P as) (perform (ren_path f g P) bs)"
proof (induction as bs rule: list_all2_induct)
  case Nil
  have "perform P [] = return" "perform (ren_path f g P) [] = return"
    by (auto simp: fun_eq_iff)
  then show ?case by (simp add: sim_return)
next
  case (Cons a as b bs)
  have "perform P (a # as) = (\<lambda>s. andThen (act P a s) (perform P as))"
    "perform (ren_path f g P) (b # bs)
       = (\<lambda>t. andThen (act (ren_path f g P) b t) (perform (ren_path f g P) bs))"
    by (auto simp: fun_eq_iff)
  then show ?case
    using sim_seq[OF sim_act[OF Cons.hyps(1)] Cons.IH] by simp
qed

lemma ren_event_Event [simp]:
  "ren_event f g (Event ph ty P) = Event ph (ren_val f g ty) (ren_path f g P)"
  by (simp add: ren_event_def)

lemma sim_fire:
  assumes "rel_option (rel_hook f g) h h'"
  shows "simulates f g (fire ph h ty P) (fire ph h' (ren_val f g ty) (ren_path f g P))"
proof (rule simulatesI)
  fix s t :: state and r s'
  assume sim: "similar f g s t" and run: "fire ph h ty P s = Some (r, s')"
  let ?s1 = "s\<lparr>trace := trace s @ [Event ph ty P]\<rparr>"
  let ?t1 = "t\<lparr>trace := trace t @ [Event ph (ren_val f g ty) (ren_path f g P)]\<rparr>"
  show "\<exists>t' evs. fire ph h' (ren_val f g ty) (ren_path f g P) t = Some (r, t') \<and>
        similar f g s' t' \<and> trace s' = trace s @ evs \<and>
        trace t' = trace t @ map (ren_event f g) evs"
  proof (cases h)
    case None
    with assms have "h' = None" by simp
    with None run sim show ?thesis
      by (intro exI[of _ ?t1] exI[of _ "[Event ph ty P]"]) (auto simp: fire_no_hook return_def)
  next
    case (Some hk)
    with assms obtain hk' where h': "h' = Some hk'" and rel: "rel_hook f g hk hk'"
      by (cases h') auto
    from rel similar_truncate[OF sim] have
      acts: "list_all2 (rel_action f g) (hk P (store.truncate s))
               (hk' (ren_path f g P) (store.truncate t))"
      unfolding rel_hook_def by blast
    from run Some have p: "perform P (hk P (store.truncate s)) ?s1 = Some (r, s')"
      by (simp add: fire_hook)
    have sim1: "similar f g ?s1 ?t1" using sim by simp
    from simulatesD[OF sim_perform[OF acts] sim1 p] obtain t' evs where
      t': "perform (ren_path f g P) (hk' (ren_path f g P) (store.truncate t)) ?t1 = Some (r, t')"
        "similar f g s' t'" "trace s' = trace ?s1 @ evs"
        "trace t' = trace ?t1 @ map (ren_event f g) evs"
      by blast
    with h' show ?thesis
      by (intro exI[of _ t'] exI[of _ "Event ph ty P # evs"]) (simp add: fire_hook)
  qed
qed

lemma sim_forEach_list:
  assumes "\<And>x. simulates f g (c x) (c' x)"
  shows "simulates f g (forEach_list c xs) (forEach_list c' xs)"
proof (induction xs)
  case Nil
  have "forEach_list c [] = return" "forEach_list c' [] = return"
    by (auto simp: fun_eq_iff)
  then show ?case by (simp add: sim_return)
next
  case (Cons x xs)
  have "forEach_list c (x # xs) = (\<lambda>s. andThen (c x s) (forEach_list c xs))"
    "forEach_list c' (x # xs) = (\<lambda>t. andThen (c' x t) (forEach_list c' xs))"
    by (auto simp: fun_eq_iff)
  then show ?case
    using sim_seq[OF assms Cons.IH] by simp
qed

lemma sim_forEach_from:
  assumes cb: "\<And>v i. simulates f g (c v i) (c' (ren_val f g v) i)"
  shows "simulates f g (forEach_from c a j m) (forEach_from c' (g a) j m)"
proof (induction m arbitrary: j)
  case 0
  have "forEach_from c a j 0 = return" "forEach_from c' (g a) j 0 = return"
    by (auto simp: fun_eq_iff)
  then show ?case by (simp add: sim_return)
next
  case (Suc m)
  show ?case
  proof (rule simulatesI)
    fix s t :: state and r s'
    assume sim: "similar f g s t" and run: "forEach_from c a j (Suc m) s = Some (r, s')"
    have len: "length (arrays t (g a)) = length (arrays s a)"
      by (simp add: similarD(4)[OF sim])
    show "\<exists>t' evs. forEach_from c' (g a) j (Suc m) t = Some (r, t') \<and> similar f g s' t' \<and>
        trace s' = trace s @ evs \<and> trace t' = trace t @ map (ren_event f g) evs"
    proof (cases "j < length (arrays s a)")
      case False
      with run have "forEach_from c a (Suc j) m s = Some (r, s')" by simp
      from simulatesD[OF Suc.IH sim this] obtain t' evs where
        "forEach_from c' (g a) (Suc j) m t = Some (r, t')" "similar f g s' t'"
        "trace s' = trace s @ evs" "trace t' = trace t @ map (ren_event f g) evs"
        by blast
      with False len show ?thesis
        by (intro exI[of _ t'] exI[of _ evs]) simp
    next
      case True
      let ?v = "arrays s a ! j"
      have elem: "arrays t (g a) ! j = ren_val f g ?v"
        using True by (simp add: similarD(4)[OF sim])
      have both: "simulates f g (\<lambda>u. andThen (c ?v j u) (forEach_from c a (Suc j) m))
              (\<lambda>u. andThen (c' (ren_val f g ?v) j u) (forEach_from c' (g a) (Suc j) m))"
        by (rule sim_seq[OF cb Suc.IH])
      from run True have step:
        "andThen (c ?v j s) (forEach_from c a (Suc j) m) = Some (r, s')" by simp
      from both sim step obtain t' evs where
        "andThen (c' (ren_val f g ?v) j t) (forEach_from c' (g a) (Suc j) m) = Some (r, t')"
        "similar f g s' t'" "trace s' = trace s @ evs" "trace t' = trace t @ map (ren_event f g) evs"
        by (rule simulatesD)
      with True len elem show ?thesis
        by (intro exI[of _ t'] exI[of _ evs]) simp
    qed
  qed
qed

lemma sim_visit_field:
  assumes rec: "\<And>v par pp k lk. simulates f g (rec v par pp k lk)
      (rec' (ren_val f g v) (map_option f par) (map_option (ren_path f g) pp) k lk)"
  shows "simulates f g (visit_field rec nd P k) (visit_field rec' (ren_val f g nd) (ren_path f g P) k)"
proof (rule simulatesI)
  fix s t :: state and r s'
  assume sim: "similar f g s t" and run: "visit_field rec nd P k s = Some (r, s')"
  note mem = member_similar[OF sim, of nd k]
  have child: "simulates f g (rec v (as_parent nd) (Some P) (Some k) lk)
      (rec' (ren_val f g v) (as_parent (ren_val f g nd)) (Some (ren_path f g P)) (Some k) lk)" for v lk
    using rec[of v "as_parent nd" "Some P" "Some k" lk] by (simp add: as_parent_ren)
  let ?goal = "\<exists>t' evs. visit_field rec' (ren_val f g nd) (ren_path f g P) k t = Some (r, t') \<and>
        similar f g s' t' \<and> trace s' = trace s @ evs \<and>
        trace t' = trace t @ map (ren_event f g) evs"
  have single: ?goal
    if v: "member s nd k = v" and na: "\<forall>a. v \<noteq> ArrRef a" for v
  proof -
    from run v na have "rec v (as_parent nd) (Some P) (Some k) None s = Some (r, s')"
      by (cases v) (auto simp: visit_field_def)
    from simulatesD[OF child sim this] obtain t' evs where
      t': "rec' (ren_val f g v) (as_parent (ren_val f g nd)) (Some (ren_path f g P)) (Some k) None t
            = Some (r, t')"
        "similar f g s' t'" "trace s' = trace s @ evs" "trace t' = trace t @ map (ren_event f g) evs"
      by blast
    from mem v na have "visit_field rec' (ren_val f g nd) (ren_path f g P) k t
        = rec' (ren_val f g v) (as_parent (ren_val f g nd)) (Some (ren_path f g P)) (Some k) None t"
      by (cases v) (auto simp: visit_field_def)
    with t' show ?thesis by auto
  qed
  show ?goal
  proof (cases "\<exists>a. member s nd k = ArrRef a")
    case False
    then show ?thesis by (intro single[OF refl]) auto
  next
    case True
    then obtain a where a: "member s nd k = ArrRef a" by blast
    have len: "length (arrays t (g a)) = length (arrays s a)"
      by (simp add: similarD(4)[OF sim])
    from run a have loop:
      "forEach_from (\<lambda>v i. rec v (as_parent nd) (Some P) (Some k) (Some i)) a 0
         (length (arrays s a)) s = Some (r, s')"
      by (simp add: visit_field_def forEach_array_def)
    have "simulates f g
        (forEach_from (\<lambda>v i. rec v (as_parent nd) (Some P) (Some k) (Some i)) a 0 (length (arrays s a)))
        (forEach_from (\<lambda>v i. rec' v (as_parent (ren_val f g nd)) (Some (ren_path f g P)) (Some k) (Some i))
           (g a) 0 (length (arrays s a)))"
      by (rule sim_forEach_from) (rule child)
    from simulatesD[OF this sim loop] obtain t' evs where
      t': "forEach_from (\<lambda>v i. rec' v (as_parent (ren_val f g nd)) (Some (ren_path f g P)) (Some k) (Some i))
           (g a) 0 (length (arrays s a)) t = Some (r, t')"
        "similar f g s' t'" "trace s' = trace s @ evs" "trace t' = trace t @ map (ren_event f g) evs"
      by blast
    from mem a have "member t (ren_val f g nd) k = ArrRef (g a)" by simp
    with t' len show ?thesis
      by (intro exI[of _ t'] exI[of _ evs]) (simp add: visit_field_def forEach_array_def)
  qed
qed

lemma visitorFuncs_related:
  assumes "rel_visitors f g vis vis'"
  shows "rel_option (rel_hook f g) (enter (visitorFuncs vis ty)) (enter (visitorFuncs vis' (ren_val f g ty)))"
    and "rel_option (rel_hook f g) (exit (visitorFuncs vis ty)) (exit (visitorFuncs vis' (ren_val f g ty)))"
proof -
  from assms have r: "rel_option (rel_visitor f g) (vis (property_name ty)) (vis' (property_name ty))"
    unfolding rel_visitors_def by blast
  show "rel_option (rel_hook f g) (enter (visitorFuncs vis ty)) (enter (visitorFuncs vis' (ren_val f g ty)))"
  proof (cases "vis (property_name ty)")
    case None
    with r show ?thesis by (cases "vis' (property_name ty)") (simp_all add: visitorFuncs_def)
  next
    case (Some v)
    with r obtain w where w: "vis' (property_name ty) = Some w" "rel_visitor f g v w"
      by (cases "vis' (property_name ty)") auto
    with Some show ?thesis
      by (cases v) (auto simp: visitorFuncs_def)
  qed
  show "rel_option (rel_hook f g) (exit (visitorFuncs vis ty)) (exit (visitorFuncs vis' (ren_val f g ty)))"
  proof (cases "vis (property_name ty)")
    case None
    with r show ?thesis by (cases "vis' (property_name ty)") (simp_all add: visitorFuncs_def)
  next
    case (Some v)
    with r obtain w where w: "vis' (property_name ty) = Some w" "rel_visitor f g v w"
      by (cases "vis' (property_name ty)") auto
    with Some show ?thesis
      by (cases v) (auto simp: visitorFuncs_def)
  qed
qed

lemma sim_traverse:
  assumes vis: "rel_visitors f g vis vis'"
  shows "simulates f g (traverse n defs vis nd par pp k lk)
     (traverse n defs vis' (ren_val f g nd) (map_option f par) (map_option (ren_path f g) pp) k lk)"
proof (induction n arbitrary: nd par pp k lk)
  case 0
  show ?case by (rule simulatesI) simp
next
  case (Suc n)
  let ?nd' = "ren_val f g nd"
  let ?par' = "map_option f par"
  let ?pp' = "map_option (ren_path f g) pp"
  show ?case
  proof (cases "nd = Undefined \<or> nd = Null")
    case True
    then have
      "traverse (Suc n) defs vis nd par pp k lk
         = throw (TypeError ''Cannot read properties of undefined (reading type)'') \<and>
       traverse (Suc n) defs vis' ?nd' ?par' ?pp' k lk
         = throw (TypeError ''Cannot read properties of undefined (reading type)'') \<or>
       traverse (Suc n) defs vis nd par pp k lk
         = throw (TypeError ''Cannot read properties of null (reading type)'') \<and>
       traverse (Suc n) defs vis' ?nd' ?par' ?pp' k lk
         = throw (TypeError ''Cannot read properties of null (reading type)'')"
      by (auto simp: fun_eq_iff)
    then show ?thesis by (elim disjE conjE) (simp_all only: sim_throw)
  next
    case False
    then have nn: "nd \<noteq> Undefined" "nd \<noteq> Null" by auto
    then have nn': "?nd' \<noteq> Undefined" "?nd' \<noteq> Null" by simp_all
    let ?P = "NodePath nd par pp k lk"
    let ?P' = "NodePath ?nd' ?par' ?pp' k lk"
    have P': "?P' = ren_path f g ?P" by simp
    have loop: "simulates f g (forEach_list (visit_field (traverse n defs vis) nd ?P) ks)
        (forEach_list (visit_field (traverse n defs vis') ?nd' ?P') ks)" for ks
      unfolding P' by (intro sim_forEach_list sim_visit_field Suc.IH)
    show ?thesis
    proof (rule simulatesI)
      fix s t :: state and r s'
      assume sim: "similar f g s t"
        and run: "traverse (Suc n) defs vis nd par pp k lk s = Some (r, s')"
      let ?ty = "member s nd ''type''"
      let ?ty' = "ren_val f g ?ty"
      have ty': "member t ?nd' ''type'' = ?ty'"
        by (rule member_similar[OF sim])
      let ?rest = "\<lambda>s1. case lookup_definition defs ?ty of
          None \<Rightarrow> throw (TypeError ''Cannot read properties of undefined (reading visitor)'') s1
        | Some d \<Rightarrow>
            andThen (forEach_list (visit_field (traverse n defs vis) nd ?P) (child_fields d) s1)
              (fire Exit (exit (visitorFuncs vis ?ty)) ?ty ?P)"
      let ?rest' = "\<lambda>t1. case lookup_definition defs ?ty' of
          None \<Rightarrow> throw (TypeError ''Cannot read properties of undefined (reading visitor)'') t1
        | Some d \<Rightarrow>
            andThen (forEach_list (visit_field (traverse n defs vis') ?nd' ?P') (child_fields d) t1)
              (fire Exit (exit (visitorFuncs vis' ?ty')) ?ty' ?P')"
      have ex: "simulates f g (fire Exit (exit (visitorFuncs vis ?ty)) ?ty ?P)
                  (fire Exit (exit (visitorFuncs vis' ?ty')) ?ty' ?P')"
        unfolding P' by (rule sim_fire[OF visitorFuncs_related(2)[OF vis]])
      have en: "simulates f g (fire Enter (enter (visitorFuncs vis ?ty)) ?ty ?P)
                  (fire Enter (enter (visitorFuncs vis' ?ty')) ?ty' ?P')"
        unfolding P' by (rule sim_fire[OF visitorFuncs_related(1)[OF vis]])
      have rest: "simulates f g ?rest ?rest'"
      proof (cases "lookup_definition defs ?ty")
        case None
        then show ?thesis by (simp add: sim_throw)
      next
        case (Some d)
        then show ?thesis using sim_seq[OF loop ex] by simp
      qed
      have both: "simulates f g (\<lambda>u. andThen (fire Enter (enter (visitorFuncs vis ?ty)) ?ty ?P u) ?rest)
              (\<lambda>u. andThen (fire Enter (enter (visitorFuncs vis' ?ty')) ?ty' ?P' u) ?rest')"
        by (rule sim_seq[OF en rest])
      from run have step:
        "andThen (fire Enter (enter (visitorFuncs vis ?ty)) ?ty ?P s) ?rest = Some (r, s')"
        unfolding traverse_Suc[OF nn] .
      from both sim step obtain t' evs where
        t': "andThen (fire Enter (enter (visitorFuncs vis' ?ty')) ?ty' ?P' t) ?rest' = Some (r, t')"
        "similar f g s' t'" "trace s' = trace s @ evs" "trace t' = trace t @ map (ren_event f g) evs"
        by (rule simulatesD)
      have "traverse (Suc n) defs vis' ?nd' ?par' ?pp' k lk t = Some (r, t')"
        unfolding traverse_Suc[OF nn'] ty' by (rule t'(1))
      with t' show "\<exists>t' evs. traverse (Suc n) defs vis' ?nd' ?par' ?pp' k lk t = Some (r, t') \<and>
          similar f g s' t' \<and> trace s' = trace s @ evs \<and>
          trace t' = trace t @ map (ren_event f g) evs"
        by blast
    qed
  qed
qed

text \<open>
  C10: the walk is deterministic. Two invocations of \<open>traverse\<close> on structurally equal
  trees (the store of the second holds, at other addresses, what the store of the first
  holds), with the same schema and with visitor maps whose hooks are pure functions of the
  path they receive (they cannot tell the one tree from the other), each with whatever
  depth of recursion it needs and whatever has been recorded before it started, that both
  end, end the same way (both return, or both throw the same error), leave structurally
  equal trees (the final stores are similar under the same renaming), and have called the
  hooks in the same sequence: the events of the second walk are those of the first with the
  addresses renamed, so the phases and the node types are the same ones in the same order.
\<close>

theorem walk_deterministic:
  assumes "similar f g s t" and "rel_visitors f g vis vis'"
    and "traverse n defs vis nd par pp k lk s = Some (r, s')"
    and "traverse n' defs vis' (ren_val f g nd) (map_option f par) (map_option (ren_path f g) pp) k lk t
           = Some (r', t')"
  shows "r' = r \<and> similar f g s' t' \<and>
         (\<exists>evs. trace s' = trace s @ evs \<and> trace t' = trace t @ map (ren_event f g) evs \<and>
                invocations (map (ren_event f g) evs) = invocations evs)"
proof -
  from simulatesD[OF sim_traverse[OF assms(2)] assms(1) assms(3)] obtain t2 evs where
    t2: "traverse n defs vis' (ren_val f g nd) (map_option f par) (map_option (ren_path f g) pp) k lk t
           = Some (r, t2)"
      "similar f g s' t2" "trace s' = trace s @ evs" "trace t2 = trace t @ map (ren_event f g) evs"
    by blast
  from traverse_fuel_independent[OF t2(1) assms(4)] have "r' = r" "t' = t2" by auto
  with t2 show ?thesis by auto
qed

lemma inherited_related: "rel_visitor f g (inherited_visitor i) (inherited_visitor i)"
  by (cases i) (simp_all add: inherited_visitor_def rel_hook_def)

lemma object_literal_related:
  assumes "list_all2 (\<lambda>p q. fst p = fst q \<and> rel_visitor f g (snd p) (snd q)) ps qs"
  shows "rel_visitors f g (object_literal ps) (object_literal qs)"
  unfolding rel_visitors_def
proof
  fix name
  from assms have own: "rel_option (rel_visitor f g) (map_of ps name) (map_of qs name)"
    by (induction ps qs rule: list_all2_induct) auto
  show "rel_option (rel_visitor f g) (object_literal ps name) (object_literal qs name)"
  proof (cases "map_of ps name")
    case None
    with own have "map_of qs name = None" by (cases "map_of qs name") auto
    with None show ?thesis
      by (cases "Object_prototype name") (simp_all add: object_literal_def inherited_related)
  next
    case (Some v)
    with own obtain w where "map_of qs name = Some w" "rel_visitor f g v w"
      by (cases "map_of qs name") auto
    with Some show ?thesis by (simp add: object_literal_def)
  qed
qed

theorem walk_deterministic_witness:
  "similar (\<lambda>a. a + 10) (\<lambda>r. r + 2) ast ast_moved \<and>
   rel_visitors (\<lambda>a. a + 10) (\<lambda>r. r + 2) visitors_replace visitors_replace_moved \<and>
   (\<exists>s' t' evs.
      traverse 5 astDefinitionsMap visitors_replace (ObjRef 0) None None None None ast
        = Some (Inr (), s') \<and>
      traverse 7 astDefinitionsMap visitors_replace_moved (ObjRef 10) None None None None ast_moved
        = Some (Inr (), t') \<and>
      similar (\<lambda>a. a + 10) (\<lambda>r. r + 2) s' t' \<and>
      trace s' = trace ast @ evs \<and>
      trace t' = trace ast_moved @ map (ren_event (\<lambda>a. a + 10) (\<lambda>r. r + 2)) evs \<and>
      invocations (map (ren_event (\<lambda>a. a + 10) (\<lambda>r. r + 2)) evs) = invocations evs)"
proof -
  let ?f = "\<lambda>a::nat. a + 10"
  let ?g = "\<lambda>r::nat. r + 2"
  have sim: "similar ?f ?g ast ast_moved"
    unfolding similar_def
  proof (intro conjI allI)
    show "inj ?f" by (simp add: inj_def)
    show "inj ?g" by (simp add: inj_def)
    show "objects ast_moved (a + 10) = ren_props ?f ?g (objects ast a)" for a
      by (simp add: ast_def ast_moved_def empty_store_def ren_props_def)
    show "arrays ast_moved (r + 2) = map (ren_val ?f ?g) (arrays ast r)" for r
      by (simp add: ast_def ast_moved_def empty_store_def)
  qed
  have hooks: "rel_hook ?f ?g replace_hook replace_hook_moved" "rel_hook ?f ?g no_op no_op"
    by (simp_all add: rel_hook_def replace_hook_def replace_hook_moved_def no_op_def)
  have vis: "rel_visitors ?f ?g visitors_replace visitors_replace_moved"
    unfolding visitors_replace_def visitors_replace_moved_def
    by (rule object_literal_related) (use hooks in simp)
  have "outcome (traverse 5 astDefinitionsMap visitors_replace (ObjRef 0) None None None None ast)
          = Some (Inr ())"
    by code_simp
  then obtain s' where run1:
    "traverse 5 astDefinitionsMap visitors_replace (ObjRef 0) None None None None ast = Some (Inr (), s')"
    by (auto simp: outcome_def)
  have "outcome (traverse 7 astDefinitionsMap visitors_replace_moved (ObjRef 10) None None None None
          ast_moved) = Some (Inr ())"
    by code_simp
  then obtain t' where run2:
    "traverse 7 astDefinitionsMap visitors_replace_moved (ObjRef 10) None None None None ast_moved
       = Some (Inr (), t')"
    by (auto simp: outcome_def)
  from run2 have run2': "traverse 7 astDefinitionsMap visitors_replace_moved (ren_val ?f ?g (ObjRef 0))
      (map_option ?f None) (map_option (ren_path ?f ?g) None) None None ast_moved = Some (Inr (), t')"
    by simp
  from walk_deterministic[OF sim vis run1 run2'] run1 run2 sim vis show ?thesis by blast
qed

end
